theory Spec2Isabelle
  imports Main "HOL-Library.Word" "HOL-Library.Multiset" "HOL-Library.Sublist"
begin

unbundle bit_operations_syntax

section \<open>Addresses: the part of Go's net and net/netip packages the program calls\<close>

text \<open>
  The program works on \<open>net.IP\<close> values (byte slices of length 4 or 16) and on the
  textual addresses it gets from the command line and from \<open>talosctl\<close>. The standard
  library is not part of the repository; the functions below follow its sources
  (go 1.24, \<open>net/ip.go\<close>, \<open>net/netip/netip.go\<close>, \<open>net/parse.go\<close>).
  Two pieces of it stay parameters of the model: \<open>p6\<close>, the parser of the text of an
  IPv6 address (\<open>netip.parseIPv6\<close>, restricted to addresses without a zone, which is
  all that \<open>net.ParseIP\<close> and \<open>net.ParseCIDR\<close> accept), and \<open>s6\<close>, the printer of
  a non-IPv4 address. A nil slice is the empty list.
\<close>

type_synonym byte = "8 word"
type_synonym IP = "byte list"
type_synonym IPMask = "byte list"

datatype Addr = Addr4 byte byte byte byte | Addr6 "128 word"

definition isDigit :: "char \<Rightarrow> bool" where
  "isDigit c = (48 \<le> (of_char c :: nat) \<and> (of_char c :: nat) \<le> 57)"

definition digitVal :: "char \<Rightarrow> nat" where
  "digitVal c = of_char c - 48"

text \<open>
  \<open>netip.parseIPv4Fields\<close>: decimal octets separated by dots, no leading zero, no
  octet above 255, exactly four of them. \<open>val\<close> and \<open>digLen\<close> are the loop's
  variables, \<open>fields\<close> the octets stored so far (\<open>pos\<close> is their number). The test
  \<open>i == 0 || s[i-1] == '.'\<close> at a dot is \<open>digLen = 0\<close>, and \<open>i == len(s)-1\<close> is
  \<open>cs = []\<close>.
\<close>

fun parseIPv4Fields :: "string \<Rightarrow> nat \<Rightarrow> nat \<Rightarrow> byte list \<Rightarrow> byte list option" where
  "parseIPv4Fields [] val digLen fields =
     (if length fields < 3 then None else Some (fields @ [of_nat val]))"
| "parseIPv4Fields (c # cs) val digLen fields =
     (if isDigit c then
        (if digLen = 1 \<and> val = 0 then None
         else if val * 10 + digitVal c > 255 then None
         else parseIPv4Fields cs (val * 10 + digitVal c) (digLen + 1) fields)
      else if c = CHR ''.'' then
        (if digLen = 0 \<or> cs = [] then None
         else if length fields = 3 then None
         else parseIPv4Fields cs 0 0 (fields @ [of_nat val]))
      else None)"

definition parseIPv4 :: "string \<Rightarrow> Addr option" where
  "parseIPv4 s =
     (case parseIPv4Fields s 0 0 [] of
        Some [a, b, c, d] \<Rightarrow> Some (Addr4 a b c d)
      | _ \<Rightarrow> None)"

text \<open>\<open>netip.ParseAddr\<close>: the first of \<open>.\<close>, \<open>:\<close> and \<open>%\<close> in the text decides the family.\<close>

fun ParseAddr :: "(string \<Rightarrow> 128 word option) \<Rightarrow> string \<Rightarrow> string \<Rightarrow> Addr option" where
  "ParseAddr p6 s [] = None"
| "ParseAddr p6 s (c # cs) =
     (if c = CHR ''.'' then parseIPv4 s
      else if c = CHR '':'' then map_option Addr6 (p6 s)
      else if c = CHR ''%'' then None
      else ParseAddr p6 s cs)"

definition v4InV6Prefix :: "byte list" where
  "v4InV6Prefix = [0, 0, 0, 0, 0, 0, 0, 0, 0, 0, 0xff, 0xff]"

fun As16 :: "Addr \<Rightarrow> IP" where
  "As16 (Addr4 a b c d) = v4InV6Prefix @ [a, b, c, d]"
| "As16 (Addr6 w) = map (\<lambda>i. ucast (drop_bit (8 * (15 - i)) w)) [0..<16]"

fun BitLen :: "Addr \<Rightarrow> nat" where
  "BitLen (Addr4 a b c d) = 32"
| "BitLen (Addr6 w) = 128"

text \<open>\<open>net.ParseIP\<close>: the 16-byte form of the parsed address, nil when the text does not parse.\<close>

definition ParseIP :: "(string \<Rightarrow> 128 word option) \<Rightarrow> string \<Rightarrow> IP option" where
  "ParseIP p6 s = map_option As16 (ParseAddr p6 s s)"

definition isZeros :: "byte list \<Rightarrow> bool" where
  "isZeros p = list_all (\<lambda>b. b = 0) p"

text \<open>\<open>IP.To4\<close>: a 4-byte address as it is, a 16-byte IPv4-mapped address cut to its
  last four bytes, nil (\<open>None\<close>) otherwise.\<close>

definition To4 :: "IP \<Rightarrow> IP option" where
  "To4 ip =
     (if length ip = 4 then Some ip
      else if length ip = 16 \<and> isZeros (take 10 ip) \<and> ip ! 10 = 0xff \<and> ip ! 11 = 0xff
        then Some (drop 12 ip)
      else None)"

section \<open>Cluster members (talos/join.go)\<close>

record Member =
  Node :: string
  Namespace :: string
  Type :: string
  ID :: string
  Version :: string
  Hostname :: string
  MachineType :: string
  OS :: string
  Addresses :: "string list"
  InternalIP :: string

text \<open>The decoded JSON object of \<open>parseMembers\<close> (\<open>MemberResponse\<close>), flattened.\<close>

record MemberResponse =
  Metadata_ID :: string
  Metadata_Namespace :: string
  Metadata_Type :: string
  Metadata_Version :: int
  Response_Node :: string
  Spec_NodeID :: string
  Spec_Addresses :: "string list"
  Spec_Hostname :: string
  Spec_MachineType :: string
  Spec_OperatingSystem :: string

text \<open>\<open>fmt.Sprintf("%d", v)\<close>: the decimal digits, with a minus sign below zero.\<close>

function utoa :: "nat \<Rightarrow> string" where
  "utoa n = (if n < 10 then [char_of (48 + n)] else utoa (n div 10) @ [char_of (48 + n mod 10)])"
  by pat_completeness auto
termination
  by (relation "measure id") auto

definition itoa :: "int \<Rightarrow> string" where
  "itoa v = (if v < 0 then CHR ''-'' # utoa (nat (- v)) else utoa (nat v))"

text \<open>\<open>extractInternalIP\<close>: the loop returns at the first address that parses and has a
  4-byte form; after the loop, the first address or the empty string.\<close>

fun extractInternalIP_loop :: "(string \<Rightarrow> 128 word option) \<Rightarrow> string list \<Rightarrow> string option" where
  "extractInternalIP_loop p6 [] = None"
| "extractInternalIP_loop p6 (addr # rest) =
     (case ParseIP p6 addr of
        None \<Rightarrow> extractInternalIP_loop p6 rest
      | Some ip \<Rightarrow>
          (if To4 ip \<noteq> None then Some addr else extractInternalIP_loop p6 rest))"

definition extractInternalIP :: "(string \<Rightarrow> 128 word option) \<Rightarrow> string list \<Rightarrow> string" where
  "extractInternalIP p6 addresses =
     (case extractInternalIP_loop p6 addresses of
        Some addr \<Rightarrow> addr
      | None \<Rightarrow> (if length addresses > 0 then addresses ! 0 else ''''))"

text \<open>The member that \<open>parseMembers\<close> builds from one decoded object.\<close>

definition memberOfResponse :: "(string \<Rightarrow> 128 word option) \<Rightarrow> MemberResponse \<Rightarrow> Member" where
  "memberOfResponse p6 result =
     \<lparr> Node = Response_Node result,
       Namespace = Metadata_Namespace result,
       Type = Metadata_Type result,
       ID = Metadata_ID result,
       Version = itoa (Metadata_Version result),
       Hostname = Spec_Hostname result,
       MachineType = Spec_MachineType result,
       OS = Spec_OperatingSystem result,
       Addresses = Spec_Addresses result,
       InternalIP = extractInternalIP p6 (Spec_Addresses result) \<rparr>"

section \<open>The reconciliation loop of main (main.go, lines 115 to 142)\<close>

text \<open>The inner loop over the members, with its \<open>break\<close> at the first match.\<close>

fun isExistingMember :: "Member list \<Rightarrow> string \<Rightarrow> bool" where
  "isExistingMember [] talosHost = False"
| "isExistingMember (member # rest) talosHost =
     (if InternalIP member = talosHost then True else isExistingMember rest talosHost)"

text \<open>One iteration of the outer loop: the three tests in the order of the source, each
  \<open>continue\<close> leaving \<open>newMemberIps\<close> as it is.\<close>

definition reconcile_step ::
  "(string \<Rightarrow> 128 word option) \<Rightarrow> Member list \<Rightarrow> string list \<Rightarrow> string \<Rightarrow> string list" where
  "reconcile_step p6 members newMemberIps talosHost =
     (if talosHost \<in> set newMemberIps then newMemberIps
      else case ParseIP p6 talosHost of
          None \<Rightarrow> newMemberIps
        | Some ip \<Rightarrow>
            (if To4 ip = None then newMemberIps
             else if \<not> isExistingMember members talosHost then newMemberIps @ [talosHost]
             else newMemberIps))"

definition reconcile ::
  "(string \<Rightarrow> 128 word option) \<Rightarrow> Member list \<Rightarrow> string list \<Rightarrow> string list" where
  "reconcile p6 members talosHostsInCidr = foldl (reconcile_step p6 members) [] talosHostsInCidr"

text \<open>The three conditions of the claims, as one predicate on an address.\<close>

definition isIPv4 :: "(string \<Rightarrow> 128 word option) \<Rightarrow> string \<Rightarrow> bool" where
  "isIPv4 p6 s = (case ParseIP p6 s of None \<Rightarrow> False | Some ip \<Rightarrow> To4 ip \<noteq> None)"

definition joinable :: "(string \<Rightarrow> 128 word option) \<Rightarrow> Member list \<Rightarrow> string \<Rightarrow> bool" where
  "joinable p6 members s = (isIPv4 p6 s \<and> (\<forall>m \<in> set members. InternalIP m \<noteq> s))"

section \<open>Ranges: net.ParseCIDR, IPNet.Contains and IP.Mask\<close>

datatype error = ParseError string string

text \<open>\<open>ParseError.Error\<close>: the message names the kind of text and the text itself.\<close>

fun Error :: "error \<Rightarrow> string" where
  "Error (ParseError typ txt) = ''invalid '' @ typ @ '': '' @ txt"

record IPNet =
  IP :: IP
  Mask :: IPMask

text \<open>\<open>net.dtoi\<close>: the decimal number at the start of the text, the number of characters
  read and whether a number was read at all; \<open>big\<close> stops the loop.\<close>

definition big :: nat where
  "big = 0xFFFFFF"

fun dtoi_loop :: "string \<Rightarrow> nat \<Rightarrow> nat \<Rightarrow> nat \<times> nat \<times> bool" where
  "dtoi_loop [] n i = (if i = 0 then (0, 0, False) else (n, i, True))"
| "dtoi_loop (c # cs) n i =
     (if isDigit c then
        (if n * 10 + digitVal c \<ge> big then (big, i, False)
         else dtoi_loop cs (n * 10 + digitVal c) (i + 1))
      else (if i = 0 then (0, 0, False) else (n, i, True)))"

definition dtoi :: "string \<Rightarrow> nat \<times> nat \<times> bool" where
  "dtoi s = dtoi_loop s 0 0"

text \<open>\<open>net.CIDRMask\<close>: \<open>ones\<close> one-bits followed by zeros, \<open>bits / 8\<close> bytes long.\<close>

fun CIDRMask_loop :: "nat \<Rightarrow> nat \<Rightarrow> byte list" where
  "CIDRMask_loop 0 n = []"
| "CIDRMask_loop (Suc l) n =
     (if n \<ge> 8 then 0xff # CIDRMask_loop l (n - 8)
      else NOT (drop_bit n (0xff :: byte)) # CIDRMask_loop l 0)"

definition CIDRMask :: "nat \<Rightarrow> nat \<Rightarrow> IPMask" where
  "CIDRMask ones bits =
     (if bits \<noteq> 32 \<and> bits \<noteq> 128 then []
      else if ones > bits then []
      else CIDRMask_loop (bits div 8) ones)"

definition allFF :: "byte list \<Rightarrow> bool" where
  "allFF b = list_all (\<lambda>c. c = 0xff) b"

text \<open>\<open>IP.Mask\<close>: the bytewise AND of address and mask, once both have the same length;
  nil when they cannot be brought to the same length.\<close>

definition IP_Mask :: "IP \<Rightarrow> IPMask \<Rightarrow> IP" where
  "IP_Mask ip0 mask0 =
     (let mask = (if length mask0 = 16 \<and> length ip0 = 4 \<and> allFF (take 12 mask0)
                  then drop 12 mask0 else mask0);
          ip = (if length mask = 4 \<and> length ip0 = 16 \<and> take 12 ip0 = v4InV6Prefix
                then drop 12 ip0 else ip0)
      in if length ip \<noteq> length mask then []
         else map (\<lambda>(a, b). a AND b) (zip ip mask))"

text \<open>\<open>net.ParseCIDR\<close>: the text before the first \<open>/\<close> is the address, the text after
  it the prefix length, a decimal number up to the address's width. The code under
  study only uses the network (the second result).\<close>

definition ParseCIDR :: "(string \<Rightarrow> 128 word option) \<Rightarrow> string \<Rightarrow> error + IPNet" where
  "ParseCIDR p6 s =
     (if CHR ''/'' \<notin> set s then Inl (ParseError ''CIDR address'' s)
      else
        let addr = takeWhile (\<lambda>c. c \<noteq> CHR ''/'') s;
            mask = tl (dropWhile (\<lambda>c. c \<noteq> CHR ''/'') s)
        in case ParseAddr p6 addr addr of
             None \<Rightarrow> Inl (ParseError ''CIDR address'' s)
           | Some ipAddr \<Rightarrow>
               (case dtoi mask of (n, i, ok) \<Rightarrow>
                  if \<not> ok \<or> i \<noteq> length mask \<or> n > BitLen ipAddr
                  then Inl (ParseError ''CIDR address'' s)
                  else
                    let m = CIDRMask n (BitLen ipAddr)
                    in Inr \<lparr> IP = IP_Mask (As16 ipAddr) m, Mask = m \<rparr>))"

definition networkNumberAndMask2 :: "IP \<Rightarrow> IPMask \<Rightarrow> IP \<times> IPMask" where
  "networkNumberAndMask2 ip m =
     (if length m = 4 then (if length ip \<noteq> 4 then ([], []) else (ip, m))
      else if length m = 16 then (if length ip = 4 then (ip, drop 12 m) else (ip, m))
      else ([], []))"

definition networkNumberAndMask :: "IPNet \<Rightarrow> IP \<times> IPMask" where
  "networkNumberAndMask n =
     (case To4 (IP n) of
        Some ip \<Rightarrow> networkNumberAndMask2 ip (Mask n)
      | None \<Rightarrow>
          (if length (IP n) \<noteq> 16 then ([], [])
           else networkNumberAndMask2 (IP n) (Mask n)))"

text \<open>\<open>IPNet.Contains\<close>: the address, in its 4-byte form when it has one, agrees with the
  network number on every masked bit; an address of another length is not contained.\<close>

definition Contains :: "IPNet \<Rightarrow> IP \<Rightarrow> bool" where
  "Contains n ip0 =
     (case networkNumberAndMask n of (nn, m) \<Rightarrow>
        let ip = (case To4 ip0 of Some x \<Rightarrow> x | None \<Rightarrow> ip0)
        in if length ip \<noteq> length nn then False
           else list_all (\<lambda>i. nn ! i AND m ! i = ip ! i AND m ! i) [0..<length ip])"

text \<open>\<open>ubtoa\<close> and the dotted form of a 4-byte address; \<open>IP.String\<close> prints an address
  that has a 4-byte form in dotted decimal and leaves every other one to \<open>s6\<close>.\<close>

definition ubtoa :: "byte \<Rightarrow> string" where
  "ubtoa v =
     (if v < 10 then [char_of (unat v + 48)]
      else if v < 100 then [char_of (unat v div 10 + 48), char_of (unat v mod 10 + 48)]
      else [char_of (unat v div 100 + 48), char_of ((unat v div 10) mod 10 + 48),
            char_of (unat v mod 10 + 48)])"

definition String :: "(IP \<Rightarrow> string) \<Rightarrow> IP \<Rightarrow> string" where
  "String s6 ip =
     (if length ip = 0 then ''<nil>''
      else case To4 ip of
          Some [a, b, c, d] \<Rightarrow> ubtoa a @ ''.'' @ ubtoa b @ ''.'' @ ubtoa c @ ''.'' @ ubtoa d
        | _ \<Rightarrow> s6 ip)"

section \<open>The enumerator (package probe)\<close>

text \<open>\<open>nextIP\<close>: \<open>nextIP_loop (Suc j)\<close> is the loop at index \<open>j\<close>; the byte is
  incremented (wrapping at 255) and the loop goes on to the byte on its left only
  when the result is 0.\<close>

fun nextIP_loop :: "nat \<Rightarrow> IP \<Rightarrow> IP" where
  "nextIP_loop 0 ip = ip"
| "nextIP_loop (Suc j) ip =
     (let ip' = ip[j := ip ! j + 1]
      in if ip' ! j \<noteq> 0 then ip' else nextIP_loop j ip')"

definition nextIP :: "IP \<Rightarrow> IP" where
  "nextIP ip = nextIP_loop (length ip) ip"

text \<open>The loop of \<open>IpsFromCIDR\<close> and of \<open>IpsFromCidrs\<close>:
  \<open>for ip := ...; ipnet.Contains(ip); nextIP(ip) { ips = append(ips, ip.String()) }\<close>.
  Nothing bounds the number of iterations, so a loop that does not stop is the
  value \<open>None\<close>.\<close>

partial_function (option) enumerate_loop ::
  "(IP \<Rightarrow> string) \<Rightarrow> IPNet \<Rightarrow> IP \<Rightarrow> string list \<Rightarrow> string list option" where
  "enumerate_loop s6 ipnet ip ips =
     (if Contains ipnet ip
      then enumerate_loop s6 ipnet (nextIP ip) (ips @ [String s6 ip])
      else Some ips)"

text \<open>The slice \<open>ips[1 : len(ips)-1]\<close>, taken only when \<open>len(ips) > 2\<close>.\<close>

definition inner :: "string list \<Rightarrow> string list" where
  "inner ips = take (length ips - 2) (drop 1 ips)"

definition IpsFromCIDR ::
  "(string \<Rightarrow> 128 word option) \<Rightarrow> (IP \<Rightarrow> string) \<Rightarrow> string \<Rightarrow> (error + string list) option" where
  "IpsFromCIDR p6 s6 cidr =
     (case ParseCIDR p6 cidr of
        Inl err \<Rightarrow> Some (Inl err)
      | Inr ipnet \<Rightarrow>
          (case enumerate_loop s6 ipnet (IP_Mask (IP ipnet) (Mask ipnet)) [] of
             None \<Rightarrow> None
           | Some ips \<Rightarrow>
               (if length ips > 2 \<and> To4 (IP ipnet) \<noteq> None
                then Some (Inr (inner ips))
                else Some (Inr ips))))"

text \<open>\<open>strings.Split(s, ",")\<close>: always at least one piece, the pieces between commas.\<close>

fun Split :: "string \<Rightarrow> string list" where
  "Split [] = [[]]"
| "Split (c # cs) =
     (if c = CHR '','' then [] # Split cs
      else case Split cs of
          w # ws \<Rightarrow> (c # w) # ws
        | [] \<Rightarrow> [[c]])"

text \<open>The loop of \<open>IpsFromCidrs\<close> over the pieces, \<open>allIps\<close> being what earlier pieces gave.\<close>

fun IpsFromCidrs_loop ::
  "(string \<Rightarrow> 128 word option) \<Rightarrow> (IP \<Rightarrow> string) \<Rightarrow> string list \<Rightarrow> string list
    \<Rightarrow> (error + string list) option" where
  "IpsFromCidrs_loop p6 s6 [] allIps = Some (Inr allIps)"
| "IpsFromCidrs_loop p6 s6 (cidr # cidrsList) allIps =
     (case ParseCIDR p6 cidr of
        Inl err \<Rightarrow> Some (Inl err)
      | Inr ipnet \<Rightarrow>
          (case enumerate_loop s6 ipnet (IP_Mask (IP ipnet) (Mask ipnet)) [] of
             None \<Rightarrow> None
           | Some ips \<Rightarrow>
               (if length ips > 2 \<and> To4 (IP ipnet) \<noteq> None
                then IpsFromCidrs_loop p6 s6 cidrsList (allIps @ inner ips)
                else IpsFromCidrs_loop p6 s6 cidrsList (allIps @ ips))))"

definition IpsFromCidrs ::
  "(string \<Rightarrow> 128 word option) \<Rightarrow> (IP \<Rightarrow> string) \<Rightarrow> string \<Rightarrow> (error + string list) option" where
  "IpsFromCidrs p6 s6 cidrs = IpsFromCidrs_loop p6 s6 (Split cidrs) []"

section \<open>The prober: dialTalosHosts (main.go, lines 19 to 63)\<close>

text \<open>
  \<open>probe.DialAddress\<close> is the network: the model takes it as an oracle \<open>dial\<close> on the
  text \<open>ip:50000\<close> (true when the connection opens; the three-second timeout is part
  of the oracle). The state of a call is the shared slice \<open>talosHosts\<close> and, to speak
  about network activity, the list of the addresses dialled so far.

  A goroutine of a batch is first \<open>Dialing\<close>; when its dial fails it is done, when it
  succeeds it is \<open>Connected\<close> and still has to append its address under the mutex.
  The scheduler picks any goroutine of the batch for the next step, and
  \<open>wg.Wait()\<close> returns when none is left.
\<close>

record prober =
  talosHosts :: "string list"
  dialed :: "string list"

datatype goroutine = Dialing string | Connected string

definition target :: "string \<Rightarrow> string" where
  "target ip = ip @ '':50000''"

inductive batch_step ::
  "(string \<Rightarrow> bool) \<Rightarrow> goroutine multiset \<times> prober \<Rightarrow> goroutine multiset \<times> prober \<Rightarrow> bool"
  for dial :: "string \<Rightarrow> bool" where
  dial_err:
    "Dialing ip \<in># g \<Longrightarrow> \<not> dial (target ip) \<Longrightarrow>
     batch_step dial (g, st) (g - {#Dialing ip#}, st\<lparr>dialed := dialed st @ [target ip]\<rparr>)"
| dial_ok:
    "Dialing ip \<in># g \<Longrightarrow> dial (target ip) \<Longrightarrow>
     batch_step dial (g, st)
       (g - {#Dialing ip#} + {#Connected ip#}, st\<lparr>dialed := dialed st @ [target ip]\<rparr>)"
| append:
    "Connected ip \<in># g \<Longrightarrow>
     batch_step dial (g, st) (g - {#Connected ip#}, st\<lparr>talosHosts := talosHosts st @ [ip]\<rparr>)"

text \<open>One batch, from the launch of its goroutines to the return of \<open>wg.Wait()\<close>.\<close>

definition batch_run :: "(string \<Rightarrow> bool) \<Rightarrow> string list \<Rightarrow> prober \<Rightarrow> prober \<Rightarrow> bool" where
  "batch_run dial batch st st' =
     (batch_step dial)\<^sup>*\<^sup>* (mset (map Dialing batch), st) ({#}, st')"

text \<open>The slice \<open>ips[i:end]\<close> for \<open>0 \<le> i \<le> end \<le> len(ips)\<close>, which is what the loop
  computes when \<open>batchSize\<close> is positive.\<close>

definition slice :: "string list \<Rightarrow> int \<Rightarrow> int \<Rightarrow> string list" where
  "slice ips i e = take (nat (e - i)) (drop (nat i) ips)"

definition batch_end :: "string list \<Rightarrow> int \<Rightarrow> int \<Rightarrow> int" where
  "batch_end ips i batchSize =
     (if i + batchSize > int (length ips) then int (length ips) else i + batchSize)"

text \<open>The loop \<open>for i := 0; i < len(ips); i += batchSize\<close>, from index \<open>i\<close> on. The
  index is an unbounded integer: an iteration with \<open>i > 0\<close> has
  \<open>batchSize \<le> i < len(ips)\<close>, so \<open>i + batchSize\<close> stays far below \<open>2^63\<close>.\<close>

inductive dial_loop ::
  "(string \<Rightarrow> bool) \<Rightarrow> string list \<Rightarrow> int \<Rightarrow> int \<Rightarrow> prober \<Rightarrow> prober \<Rightarrow> bool"
  for dial :: "string \<Rightarrow> bool" and ips :: "string list" and batchSize :: int where
  loop_exit:
    "\<not> i < int (length ips) \<Longrightarrow> dial_loop dial ips batchSize i st st"
| loop_batch:
    "i < int (length ips) \<Longrightarrow>
     batch_run dial (slice ips i (batch_end ips i batchSize)) st st1 \<Longrightarrow>
     dial_loop dial ips batchSize (i + batchSize) st1 st' \<Longrightarrow>
     dial_loop dial ips batchSize i st st'"

text \<open>What a call does: \<open>log.Fatal\<close> prints its message and ends the process with
  \<open>os.Exit(1)\<close>, so the call does not return; otherwise it returns the slice and the
  error. The second component of the result is what was dialled during the call.\<close>

datatype 'a outcome = Fatal string | Returns 'a

inductive dialTalosHosts ::
  "(string \<Rightarrow> bool) \<Rightarrow> string list \<Rightarrow> int \<Rightarrow> (string list \<times> error option) outcome \<times> string list \<Rightarrow> bool"
  for dial :: "string \<Rightarrow> bool" and ips :: "string list" and batchSize :: int where
  fatal:
    "batchSize \<le> 0 \<and> batchSize \<noteq> - 1 \<Longrightarrow>
     dialTalosHosts dial ips batchSize
       (Fatal ''batch size cannot be less than or equal to 0'', [])"
| returns:
    "\<not> (batchSize \<le> 0 \<and> batchSize \<noteq> - 1) \<Longrightarrow>
     dial_loop dial ips (if batchSize = - 1 then 100 else batchSize) 0
       \<lparr>talosHosts = [], dialed = []\<rparr> st' \<Longrightarrow>
     dialTalosHosts dial ips batchSize (Returns (talosHosts st', None), dialed st')"

text \<open>One schedule among all: every goroutine runs to its end before the next one
  starts, in the order of the batch. It makes the model executable.\<close>

fun batch_seq :: "(string \<Rightarrow> bool) \<Rightarrow> string list \<Rightarrow> prober \<Rightarrow> prober" where
  "batch_seq dial [] st = st"
| "batch_seq dial (ip # batch) st =
     batch_seq dial batch
       (if dial (target ip)
        then st\<lparr>dialed := dialed st @ [target ip], talosHosts := talosHosts st @ [ip]\<rparr>
        else st\<lparr>dialed := dialed st @ [target ip]\<rparr>)"

function dial_loop_seq ::
  "(string \<Rightarrow> bool) \<Rightarrow> string list \<Rightarrow> int \<Rightarrow> int \<Rightarrow> prober \<Rightarrow> prober" where
  "dial_loop_seq dial ips batchSize i st =
     (if batchSize \<le> 0 then st
      else if i < int (length ips)
        then dial_loop_seq dial ips batchSize (i + batchSize)
               (batch_seq dial (slice ips i (batch_end ips i batchSize)) st)
      else st)"
  by pat_completeness auto
termination
  by (relation "measure (\<lambda>(dial, ips, batchSize, i, st). nat (int (length ips) - i))") auto

declare dial_loop_seq.simps [simp del]

definition dialTalosHosts_seq ::
  "(string \<Rightarrow> bool) \<Rightarrow> string list \<Rightarrow> int \<Rightarrow> (string list \<times> error option) outcome \<times> string list" where
  "dialTalosHosts_seq dial ips batchSize =
     (if batchSize \<le> 0 \<and> batchSize \<noteq> - 1
      then (Fatal ''batch size cannot be less than or equal to 0'', [])
      else
        let st' = dial_loop_seq dial ips (if batchSize = - 1 then 100 else batchSize) 0
                    \<lparr>talosHosts = [], dialed = []\<rparr>
        in (Returns (talosHosts st', None), dialed st'))"

section \<open>The prober step by step: loop, WaitGroup and Mutex\<close>

text \<open>
  The same function as a transition system over the whole call, for the properties
  that are about what is in flight at a moment of the execution. \<open>batchSize\<close> is
  the value after the guard and the replacement of the sentinel.

  The main goroutine is at the head of the loop, blocked in \<open>wg.Wait()\<close>, or has
  returned. A launched goroutine is in one of four places: before its dial has
  returned (\<open>AtDial\<close>), before \<open>mu.Lock()\<close> has returned (\<open>AtLock\<close>), between
  the lock and the append (\<open>InCritical\<close>), and after the append, before
  \<open>mu.Unlock()\<close> and the deferred \<open>wg.Done()\<close> (\<open>AtUnlock\<close>). \<open>mu.Lock()\<close>
  returns only when no goroutine holds the mutex, and \<open>wg.Wait()\<close> only when
  every launched goroutine is done.

  \<open>launched\<close> is a history variable: the batches launched so far, in order. The
  code has no such variable; it is there to state which addresses have been
  handed to goroutines.
\<close>

datatype pc = LoopHead | AtWait | Returned

datatype phase = AtDial | AtLock | InCritical | AtUnlock

datatype worker = Worker (host: string) (phase: phase)

record call =
  pc :: pc
  index :: int
  running :: "worker multiset"
  mu_held :: bool
  launched :: "string list list"
  shared :: prober

definition init_call :: call where
  "init_call =
     \<lparr> pc = LoopHead, index = 0, running = {#}, mu_held = False, launched = [],
       shared = \<lparr>talosHosts = [], dialed = []\<rparr> \<rparr>"

inductive call_step :: "(string \<Rightarrow> bool) \<Rightarrow> string list \<Rightarrow> int \<Rightarrow> call \<Rightarrow> call \<Rightarrow> bool"
  for dial :: "string \<Rightarrow> bool" and ips :: "string list" and batchSize :: int where
  launch:
    "pc c = LoopHead \<Longrightarrow> index c < int (length ips) \<Longrightarrow>
     batch = slice ips (index c) (batch_end ips (index c) batchSize) \<Longrightarrow>
     call_step dial ips batchSize c
       (c\<lparr>pc := AtWait,
          running := running c + mset (map (\<lambda>ip. Worker ip AtDial) batch),
          launched := launched c @ [batch]\<rparr>)"
| wait:
    "pc c = AtWait \<Longrightarrow> running c = {#} \<Longrightarrow>
     call_step dial ips batchSize c (c\<lparr>pc := LoopHead, index := index c + batchSize\<rparr>)"
| exit:
    "pc c = LoopHead \<Longrightarrow> \<not> index c < int (length ips) \<Longrightarrow>
     call_step dial ips batchSize c (c\<lparr>pc := Returned\<rparr>)"
| dial_failed:
    "Worker ip AtDial \<in># running c \<Longrightarrow> \<not> dial (target ip) \<Longrightarrow>
     call_step dial ips batchSize c
       (c\<lparr>running := running c - {#Worker ip AtDial#},
          shared := (shared c)\<lparr>dialed := dialed (shared c) @ [target ip]\<rparr>\<rparr>)"
| dial_succeeded:
    "Worker ip AtDial \<in># running c \<Longrightarrow> dial (target ip) \<Longrightarrow>
     call_step dial ips batchSize c
       (c\<lparr>running := running c - {#Worker ip AtDial#} + {#Worker ip AtLock#},
          shared := (shared c)\<lparr>dialed := dialed (shared c) @ [target ip]\<rparr>\<rparr>)"
| lock:
    "Worker ip AtLock \<in># running c \<Longrightarrow> \<not> mu_held c \<Longrightarrow>
     call_step dial ips batchSize c
       (c\<lparr>running := running c - {#Worker ip AtLock#} + {#Worker ip InCritical#},
          mu_held := True\<rparr>)"
| append_host:
    "Worker ip InCritical \<in># running c \<Longrightarrow>
     call_step dial ips batchSize c
       (c\<lparr>running := running c - {#Worker ip InCritical#} + {#Worker ip AtUnlock#},
          shared := (shared c)\<lparr>talosHosts := talosHosts (shared c) @ [ip]\<rparr>\<rparr>)"
| unlock:
    "Worker ip AtUnlock \<in># running c \<Longrightarrow>
     call_step dial ips batchSize c
       (c\<lparr>running := running c - {#Worker ip AtUnlock#}, mu_held := False\<rparr>)"

text \<open>The goroutines that hold the mutex, and those whose connection attempt is
  still outstanding.\<close>

definition holders :: "call \<Rightarrow> worker multiset" where
  "holders c = filter_mset (\<lambda>w. phase w = InCritical \<or> phase w = AtUnlock) (running c)"

definition attempts :: "call \<Rightarrow> worker multiset" where
  "attempts c = filter_mset (\<lambda>w. phase w = AtDial) (running c)"

text \<open>How far into the address list the launched batches reach.\<close>

definition frontier :: "int \<Rightarrow> call \<Rightarrow> nat" where
  "frontier batchSize c = nat (if pc c = AtWait then index c + batchSize else index c)"

text \<open>What holds in every state of a call.\<close>

definition call_inv :: "string list \<Rightarrow> int \<Rightarrow> call \<Rightarrow> bool" where
  "call_inv ips batchSize c \<longleftrightarrow>
     0 \<le> index c \<and>
     (pc c \<noteq> AtWait \<longrightarrow> running c = {#}) \<and>
     (pc c = Returned \<longrightarrow> \<not> index c < int (length ips)) \<and>
     (running c \<noteq> {#} \<longrightarrow>
        launched c \<noteq> [] \<and> image_mset host (running c) \<subseteq># mset (last (launched c))) \<and>
     (\<forall>batch \<in> set (launched c). batch \<noteq> [] \<and> int (length batch) \<le> batchSize) \<and>
     concat (launched c) = take (frontier batchSize c) ips \<and>
     size (holders c) = (if mu_held c then 1 else 0)"

text \<open>The view in which the critical section is one step: a goroutine that waits for
  the mutex or holds it before the append is \<open>Connected\<close>, one that has appended
  is done.\<close>

definition coarse :: "worker multiset \<Rightarrow> goroutine multiset" where
  "coarse g =
     image_mset (\<lambda>w. if phase w = AtDial then Dialing (host w) else Connected (host w))
       (filter_mset (\<lambda>w. phase w \<noteq> AtUnlock) g)"

section \<open>Notions used to state the properties\<close>

text \<open>The input addresses that the oracle accepts, in input order.\<close>

definition accepted :: "(string \<Rightarrow> bool) \<Rightarrow> string list \<Rightarrow> string list" where
  "accepted dial ips = filter (\<lambda>ip. dial (target ip)) ips"

text \<open>What the goroutines of a batch still owe: the addresses that are going to be
  appended, the dials that are still to be made, and the number of steps left.\<close>

fun will_append :: "(string \<Rightarrow> bool) \<Rightarrow> goroutine \<Rightarrow> bool" where
  "will_append dial (Dialing ip) = dial (target ip)"
| "will_append dial (Connected ip) = True"

fun address :: "goroutine \<Rightarrow> string" where
  "address (Dialing ip) = ip"
| "address (Connected ip) = ip"

fun is_Dialing :: "goroutine \<Rightarrow> bool" where
  "is_Dialing (Dialing ip) = True"
| "is_Dialing (Connected ip) = False"

definition owed :: "(string \<Rightarrow> bool) \<Rightarrow> goroutine multiset \<Rightarrow> string multiset" where
  "owed dial g = image_mset address (filter_mset (will_append dial) g)"

definition undialed :: "goroutine multiset \<Rightarrow> string multiset" where
  "undialed g = image_mset (target \<circ> address) (filter_mset is_Dialing g)"

definition work_left :: "goroutine multiset \<Rightarrow> nat" where
  "work_left g =
     2 * size (filter_mset is_Dialing g) + size (filter_mset (\<lambda>t. \<not> is_Dialing t) g)"

text \<open>The number that an address denotes, its bytes read in network order.\<close>

definition ipval :: "IP \<Rightarrow> nat" where
  "ipval ip = foldl (\<lambda>a b. a * 256 + unat b) 0 ip"

text \<open>The bytewise AND of an address and a mask, as \<open>IP.Mask\<close> and
  \<open>IPNet.Contains\<close> compute it.\<close>

definition masked :: "IP \<Rightarrow> IPMask \<Rightarrow> IP" where
  "masked ip m = map (\<lambda>(a, b). a AND b) (zip ip m)"

text \<open>The addresses that \<open>k\<close> iterations of the enumeration loop visit from \<open>ip\<close> on.\<close>

fun addresses_from :: "IP \<Rightarrow> nat \<Rightarrow> IP list" where
  "addresses_from ip 0 = []"
| "addresses_from ip (Suc k) = ip # addresses_from (nextIP ip) k"

text \<open>The 4-byte address of a number below \<open>2^32\<close>.\<close>

definition ip4 :: "nat \<Rightarrow> IP" where
  "ip4 v = [of_nat (v div 2 ^ 24), of_nat (v div 2 ^ 16), of_nat (v div 2 ^ 8), of_nat v]"

text \<open>The enumeration of several ranges as the specification words it: the results
  of the ranges taken one by one, appended in input order, and the first range
  without a result decides the outcome of the whole call.\<close>

fun collect ::
  "(string \<Rightarrow> (error + string list) option) \<Rightarrow> string list \<Rightarrow> string list
    \<Rightarrow> (error + string list) option" where
  "collect f [] allIps = Some (Inr allIps)"
| "collect f (cidr # cidrsList) allIps =
     (case f cidr of
        None \<Rightarrow> None
      | Some (Inl err) \<Rightarrow> Some (Inl err)
      | Some (Inr ips) \<Rightarrow> collect f cidrsList (allIps @ ips))"

definition addresses_of :: "(error + string list) option \<Rightarrow> string list" where
  "addresses_of r = (case r of Some (Inr ips) \<Rightarrow> ips | _ \<Rightarrow> [])"

section \<open>Inputs of the worked examples\<close>

definition m1 :: Member where
  "m1 = \<lparr> Node = ''10.0.0.1'', Namespace = ''cluster'', Type = ''Member'', ID = ''cp-1'',
          Version = ''1'', Hostname = ''cp-1'', MachineType = ''controlplane'',
          OS = ''Talos (v1.11.5)'', Addresses = [''10.0.0.1''], InternalIP = ''10.0.0.1'' \<rparr>"

text \<open>Three candidate addresses, the second of which refuses the connection.\<close>

definition ips_ex :: "string list" where
  "ips_ex = [''10.0.0.1'', ''10.0.0.2'', ''10.0.0.3'']"

definition dial_ex :: "string \<Rightarrow> bool" where
  "dial_ex addr = (addr \<noteq> ''10.0.0.2:50000'')"

text \<open>The network that \<open>net.ParseCIDR\<close> returns for \<open>0.0.0.0/0\<close>.\<close>

definition net0 :: IPNet where
  "net0 = \<lparr> IP = [0, 0, 0, 0], Mask = [0, 0, 0, 0] \<rparr>"

text \<open>A state of the call on the three addresses with batch size 2: the first batch
  is launched, its first goroutine has connected and holds the mutex.\<close>

definition call_ex :: call where
  "call_ex =
     \<lparr> pc = AtWait, index = 0,
       running = {#Worker ''10.0.0.1'' InCritical, Worker ''10.0.0.2'' AtDial#},
       mu_held = True, launched = [[''10.0.0.1'', ''10.0.0.2'']],
       shared = \<lparr>talosHosts = [], dialed = [''10.0.0.1:50000'']\<rparr> \<rparr>"

section \<open>Properties of the reconciler\<close>

lemma reconcile_snoc:
  "reconcile p6 ms (xs @ [x]) = reconcile_step p6 ms (reconcile p6 ms xs) x"
  by (simp add: reconcile_def)

lemma isExistingMember_iff: "isExistingMember ms h \<longleftrightarrow> (\<exists>m \<in> set ms. InternalIP m = h)"
  by (induction ms) auto

lemma reconcile_step_eq:
  "reconcile_step p6 ms acc x = (if x \<notin> set acc \<and> joinable p6 ms x then acc @ [x] else acc)"
  by (auto simp: reconcile_step_def joinable_def isIPv4_def isExistingMember_iff split: option.splits)

lemma foldl_step_set:
  "set (foldl (reconcile_step p6 ms) acc xs) = set acc \<union> {x \<in> set xs. joinable p6 ms x}"
  by (induction xs arbitrary: acc) (auto simp: reconcile_step_eq)

lemma foldl_step_distinct:
  "distinct acc \<Longrightarrow> distinct (foldl (reconcile_step p6 ms) acc xs)"
  by (induction xs arbitrary: acc) (auto simp: reconcile_step_eq)

lemma foldl_step_subseq:
  "\<exists>ys. foldl (reconcile_step p6 ms) acc xs = acc @ ys \<and> subseq ys xs"
proof (induction xs arbitrary: acc)
  case Nil
  then show ?case by simp
next
  case (Cons x xs)
  obtain ys where ys: "foldl (reconcile_step p6 ms) (reconcile_step p6 ms acc x) xs = reconcile_step p6 ms acc x @ ys" "subseq ys xs"
    using Cons.IH by blast
  show ?case
  proof (cases "x \<notin> set acc \<and> joinable p6 ms x")
    case True
    then have "reconcile_step p6 ms acc x = acc @ [x]" by (simp add: reconcile_step_eq)
    then have "foldl (reconcile_step p6 ms) acc (x # xs) = acc @ (x # ys)" using ys(1) by simp
    moreover have "subseq (x # ys) (x # xs)" using ys(2) by simp
    ultimately show ?thesis by blast
  next
    case False
    then have "reconcile_step p6 ms acc x = acc" by (auto simp add: reconcile_step_eq)
    then have "foldl (reconcile_step p6 ms) acc (x # xs) = acc @ ys" using ys(1) by simp
    moreover have "subseq ys (x # xs)" using ys(2) by (rule list_emb_Cons)
    ultimately show ?thesis by blast
  qed
qed

lemma foldl_step_fixed:
  "distinct ys \<Longrightarrow> set ys \<inter> set acc = {} \<Longrightarrow> \<forall>y \<in> set ys. joinable p6 ms y \<Longrightarrow>
   foldl (reconcile_step p6 ms) acc ys = acc @ ys"
  by (induction ys arbitrary: acc) (auto simp: reconcile_step_eq)

lemma reconcile_set:
  "set (reconcile p6 ms xs) = {x \<in> set xs. joinable p6 ms x}"
  by (simp add: reconcile_def foldl_step_set)

lemma reconcile_distinct: "distinct (reconcile p6 ms xs)"
  by (simp add: reconcile_def foldl_step_distinct)

lemma reconcile_first_occurrences:
  "reconcile p6 ms xs = rev (remdups (rev (filter (joinable p6 ms) xs)))"
proof (induction xs rule: rev_induct)
  case Nil
  then show ?case by (simp add: reconcile_def)
next
  case (snoc x xs)
  have "x \<in> set (reconcile p6 ms xs) \<longleftrightarrow> x \<in> set xs \<and> joinable p6 ms x"
    by (simp add: reconcile_set)
  then show ?case
    using snoc.IH by (auto simp: reconcile_snoc reconcile_step_eq)
qed

text \<open>
  C1. The reconciler starts from the empty output and appends the next reachable
  address exactly when it is not yet in the output built so far, it parses to an
  address with a 4-byte form, and no member has it as its internal address;
  otherwise the output stays as it is. The result is therefore the joinable
  addresses of the input at their first occurrences, a subsequence of the input,
  and it is the empty list (a value like any other, the loop has no error path)
  when no address is joinable.
\<close>

theorem reconcile_filter:
  "reconcile p6 members [] = [] \<and>
   reconcile p6 members (reachable @ [a]) =
     (if a \<notin> set (reconcile p6 members reachable) \<and> isIPv4 p6 a
         \<and> (\<forall>m \<in> set members. InternalIP m \<noteq> a)
      then reconcile p6 members reachable @ [a]
      else reconcile p6 members reachable) \<and>
   reconcile p6 members reachable = rev (remdups (rev (filter (joinable p6 members) reachable))) \<and>
   subseq (reconcile p6 members reachable) reachable \<and>
   ((\<forall>a \<in> set reachable. \<not> joinable p6 members a) \<longrightarrow> reconcile p6 members reachable = [])"
proof -
  have 1: "reconcile p6 members [] = []" by (simp add: reconcile_def)
  have 2: "reconcile p6 members (reachable @ [a]) =
     (if a \<notin> set (reconcile p6 members reachable) \<and> isIPv4 p6 a
         \<and> (\<forall>m \<in> set members. InternalIP m \<noteq> a)
      then reconcile p6 members reachable @ [a]
      else reconcile p6 members reachable)"
    by (simp add: reconcile_snoc reconcile_step_eq joinable_def)
  have 3: "subseq (reconcile p6 members reachable) reachable"
    using foldl_step_subseq[of p6 members "[]" reachable] by (auto simp: reconcile_def)
  have 4: "(\<forall>a \<in> set reachable. \<not> joinable p6 members a) \<longrightarrow> reconcile p6 members reachable = []"
  proof
    assume "\<forall>a \<in> set reachable. \<not> joinable p6 members a"
    then have "set (reconcile p6 members reachable) = {}" by (simp add: reconcile_set)
    then show "reconcile p6 members reachable = []" by simp
  qed
  show ?thesis using 1 2 3 4 reconcile_first_occurrences by blast
qed

theorem reconcile_filter_witness:
  "''10.0.0.2'' \<notin> set (reconcile (\<lambda>s. None) [m1] [''10.0.0.1'']) \<and>
   isIPv4 (\<lambda>s. None) ''10.0.0.2'' \<and> InternalIP m1 \<noteq> ''10.0.0.2'' \<and>
   reconcile (\<lambda>s. None) [m1] ([''10.0.0.1''] @ [''10.0.0.2'']) = [''10.0.0.2''] \<and>
   \<not> joinable (\<lambda>s. None) [m1] ''10.0.0.1'' \<and>
   reconcile (\<lambda>s. None) [m1] [''10.0.0.1''] = []"
proof -
  have a: "isIPv4 (\<lambda>s. None) ''10.0.0.2''"
    by (simp add: isIPv4_def ParseIP_def parseIPv4_def isDigit_def digitVal_def To4_def
        isZeros_def v4InV6Prefix_def)
  have b: "\<forall>m \<in> set [m1]. InternalIP m \<noteq> ''10.0.0.2''" by (simp add: m1_def)
  have c: "\<forall>a \<in> set [''10.0.0.1'']. \<not> joinable (\<lambda>s. None) [m1] a"
    by (simp add: joinable_def m1_def)
  show ?thesis
    using reconcile_filter[of "\<lambda>s. None" "[m1]" "[''10.0.0.1'']" "''10.0.0.2''"] a b c
    by simp
qed

text \<open>
  C7. Reconciling the output of the reconciler again, against the same members,
  gives that output back.
\<close>

theorem reconcile_idempotent:
  "reconcile p6 members (reconcile p6 members reachable) = reconcile p6 members reachable"
proof -
  have "\<forall>y \<in> set (reconcile p6 members reachable). joinable p6 members y"
    by (simp add: reconcile_set)
  then have "foldl (reconcile_step p6 members) [] (reconcile p6 members reachable) = [] @ reconcile p6 members reachable"
    by (intro foldl_step_fixed) (simp_all add: reconcile_distinct)
  then show ?thesis by (simp add: reconcile_def)
qed

lemma extractInternalIP_loop_find:
  "extractInternalIP_loop p6 addrs = find (isIPv4 p6) addrs"
  by (induction addrs) (auto simp: isIPv4_def split: option.splits)

lemma no_separator_not_parsed: "CHR ''.'' \<notin> set t \<Longrightarrow> CHR '':'' \<notin> set t \<Longrightarrow> ParseAddr p6 s t = None"
  by (induction t) auto

text \<open>
  C9. The internal address that \<open>parseMembers\<close> stores in a member is
  \<open>extractInternalIP\<close> of the member's address list: the first address in list
  order that parses to an address with a 4-byte form; without one, the first
  address of the list whatever it is; the empty text for an empty list. So the
  field the reconciler compares with can be the empty text or a text that is no
  IPv4 address, such as a host name.
\<close>

theorem internal_ip_first_ipv4:
  "InternalIP (memberOfResponse p6 r) = extractInternalIP p6 (Spec_Addresses r) \<and>
   Addresses (memberOfResponse p6 r) = Spec_Addresses r \<and>
   extractInternalIP p6 addresses =
     (case find (isIPv4 p6) addresses of
        Some a \<Rightarrow> a
      | None \<Rightarrow> (if addresses = [] then '''' else hd addresses)) \<and>
   extractInternalIP p6 [] = '''' \<and>
   \<not> isIPv4 p6 ''node-1'' \<and> extractInternalIP p6 [''node-1''] = ''node-1''"
proof -
  have 1: "extractInternalIP p6 addresses =
     (case find (isIPv4 p6) addresses of
        Some a \<Rightarrow> a
      | None \<Rightarrow> (if addresses = [] then '''' else hd addresses))" for addresses
    by (cases addresses) (auto simp add: extractInternalIP_def extractInternalIP_loop_find split: option.splits)
  have 2: "\<not> isIPv4 p6 ''node-1''"
    by (simp add: isIPv4_def ParseIP_def no_separator_not_parsed)
  have 3: "extractInternalIP p6 [''node-1''] = ''node-1''"
    using 2 by (simp add: 1)
  show ?thesis using 1 2 3 by (simp add: memberOfResponse_def)
qed

section \<open>Properties of the prober\<close>

lemma batch_step_inv:
  assumes "batch_step dial c c'"
  shows "mset (talosHosts (snd c')) + owed dial (fst c') = mset (talosHosts (snd c)) + owed dial (fst c) \<and>
         mset (dialed (snd c')) + undialed (fst c') = mset (dialed (snd c)) + undialed (fst c)"
  using assms
proof (cases rule: batch_step.cases)
  case (dial_err ip g st)
  obtain g0 where "g = add_mset (Dialing ip) g0" using dial_err(3) by (meson mset_add)
  then show ?thesis using dial_err by (simp add: owed_def undialed_def)
next
  case (dial_ok ip g st)
  obtain g0 where "g = add_mset (Dialing ip) g0" using dial_ok(3) by (meson mset_add)
  then show ?thesis using dial_ok by (simp add: owed_def undialed_def)
next
  case (append ip g st)
  obtain g0 where "g = add_mset (Connected ip) g0" using append(3) by (meson mset_add)
  then show ?thesis using append by (simp add: owed_def undialed_def)
qed

lemma batch_steps_inv:
  "(batch_step dial)\<^sup>*\<^sup>* c c' \<Longrightarrow>
   mset (talosHosts (snd c')) + owed dial (fst c') = mset (talosHosts (snd c)) + owed dial (fst c) \<and>
   mset (dialed (snd c')) + undialed (fst c') = mset (dialed (snd c)) + undialed (fst c)"
proof (induction rule: rtranclp_induct)
  case base
  then show ?case by simp
next
  case (step y z)
  then show ?case
    using batch_step_inv[of dial y z] by simp
qed

lemma owed_start: "owed dial (mset (map Dialing batch)) = mset (accepted dial batch)"
  by (induction batch) (auto simp: owed_def accepted_def)

lemma undialed_start: "undialed (mset (map Dialing batch)) = mset (map target batch)"
  by (induction batch) (auto simp: undialed_def)

lemma batch_run_result:
  assumes "batch_run dial batch st st'"
  shows "mset (talosHosts st') = mset (talosHosts st) + mset (accepted dial batch)"
    and "mset (dialed st') = mset (dialed st) + mset (map target batch)"
  using batch_steps_inv[OF assms[unfolded batch_run_def]] owed_start[of dial batch] undialed_start[of batch]
  by (simp_all add: owed_def undialed_def)

lemma slice_rest:
  assumes "0 \<le> i" "0 < b" "i < int (length ips)"
  shows "slice ips i (batch_end ips i b) @ drop (nat (i + b)) ips = drop (nat i) ips"
proof (cases "i + b > int (length ips)")
  case True
  then show ?thesis using assms by (simp add: slice_def batch_end_def)
next
  case False
  have "nat (i + b) = nat i + nat b" using assms by (simp add: nat_add_distrib)
  then have "drop (nat (i + b)) ips = drop (nat b) (drop (nat i) ips)"
    by (simp add: add.commute)
  moreover have "slice ips i (batch_end ips i b) = take (nat b) (drop (nat i) ips)"
    using False by (simp add: slice_def batch_end_def)
  ultimately show ?thesis by (simp only: append_take_drop_id)
qed

lemma dial_loop_result:
  assumes "dial_loop dial ips b i st st'" "0 < b" "0 \<le> i"
  shows "mset (talosHosts st') = mset (talosHosts st) + mset (accepted dial (drop (nat i) ips)) \<and>
         mset (dialed st') = mset (dialed st) + mset (map target (drop (nat i) ips))"
  using assms
proof (induction rule: dial_loop.induct)
  case (loop_exit i st)
  then show ?case by (simp add: accepted_def)
next
  case (loop_batch i st st1 st')
  have split: "drop (nat i) ips = slice ips i (batch_end ips i b) @ drop (nat (i + b)) ips"
    using slice_rest[of i b ips] loop_batch.hyps(1) loop_batch.prems by simp
  have r: "accepted dial (drop (nat i) ips) =
      accepted dial (slice ips i (batch_end ips i b)) @ accepted dial (drop (nat (i + b)) ips)"
    by (subst split) (simp add: accepted_def)
  have t: "map target (drop (nat i) ips) =
      map target (slice ips i (batch_end ips i b)) @ map target (drop (nat (i + b)) ips)"
    by (subst split) simp
  show ?case
    using loop_batch.IH loop_batch.prems batch_run_result[OF loop_batch.hyps(2)]
    by (simp add: r t)
qed

lemma batch_seq_steps:
  "(batch_step dial)\<^sup>*\<^sup>* (mset (map Dialing batch) + g, st) (g, batch_seq dial batch st)"
proof (induction batch arbitrary: st)
  case Nil
  then show ?case by simp
next
  case (Cons ip batch)
  let ?G = "mset (map Dialing batch) + g"
  have mem: "Dialing ip \<in># add_mset (Dialing ip) ?G" by simp
  show ?case
  proof (cases "dial (target ip)")
    case True
    have "batch_step dial (add_mset (Dialing ip) ?G, st)
            (add_mset (Dialing ip) ?G - {#Dialing ip#} + {#Connected ip#},
             st\<lparr>dialed := dialed st @ [target ip]\<rparr>)"
      using mem True by (rule batch_step.dial_ok)
    then have s1: "batch_step dial (add_mset (Dialing ip) ?G, st)
            (add_mset (Connected ip) ?G, st\<lparr>dialed := dialed st @ [target ip]\<rparr>)"
      by simp
    have "batch_step dial (add_mset (Connected ip) ?G, st\<lparr>dialed := dialed st @ [target ip]\<rparr>)
            (add_mset (Connected ip) ?G - {#Connected ip#},
             st\<lparr>dialed := dialed st @ [target ip]\<rparr>
               \<lparr>talosHosts := talosHosts (st\<lparr>dialed := dialed st @ [target ip]\<rparr>) @ [ip]\<rparr>)"
      by (rule batch_step.append) simp
    then have s2: "batch_step dial (add_mset (Connected ip) ?G, st\<lparr>dialed := dialed st @ [target ip]\<rparr>)
            (?G, st\<lparr>dialed := dialed st @ [target ip], talosHosts := talosHosts st @ [ip]\<rparr>)"
      by simp
    have "(batch_step dial)\<^sup>*\<^sup>* (?G, st\<lparr>dialed := dialed st @ [target ip], talosHosts := talosHosts st @ [ip]\<rparr>)
            (g, batch_seq dial (ip # batch) st)"
      using Cons.IH[of "st\<lparr>dialed := dialed st @ [target ip], talosHosts := talosHosts st @ [ip]\<rparr>"] True
      by simp
    then show ?thesis
      using s1 s2 by (simp add: converse_rtranclp_into_rtranclp)
  next
    case False
    have "batch_step dial (add_mset (Dialing ip) ?G, st)
            (add_mset (Dialing ip) ?G - {#Dialing ip#}, st\<lparr>dialed := dialed st @ [target ip]\<rparr>)"
      using mem False by (rule batch_step.dial_err)
    then have s1: "batch_step dial (add_mset (Dialing ip) ?G, st)
            (?G, st\<lparr>dialed := dialed st @ [target ip]\<rparr>)"
      by simp
    have "(batch_step dial)\<^sup>*\<^sup>* (?G, st\<lparr>dialed := dialed st @ [target ip]\<rparr>)
            (g, batch_seq dial (ip # batch) st)"
      using Cons.IH[of "st\<lparr>dialed := dialed st @ [target ip]\<rparr>"] False by simp
    then show ?thesis
      using s1 by (simp add: converse_rtranclp_into_rtranclp)
  qed
qed

lemma batch_seq_run: "batch_run dial batch st (batch_seq dial batch st)"
  using batch_seq_steps[of dial batch "{#}" st] by (simp add: batch_run_def)

lemma dial_loop_seq_run:
  "0 < b \<Longrightarrow> dial_loop dial ips b i st (dial_loop_seq dial ips b i st)"
proof (induction dial ips b i st rule: dial_loop_seq.induct)
  case (1 dial ips batchSize i st)
  show ?case
  proof (cases "i < int (length ips)")
    case True
    have eq: "dial_loop_seq dial ips batchSize i st =
        dial_loop_seq dial ips batchSize (i + batchSize)
          (batch_seq dial (slice ips i (batch_end ips i batchSize)) st)"
      using True "1.prems" by (subst dial_loop_seq.simps) simp
    have "dial_loop dial ips batchSize (i + batchSize)
            (batch_seq dial (slice ips i (batch_end ips i batchSize)) st)
            (dial_loop_seq dial ips batchSize i st)"
      unfolding eq using "1.IH" "1.prems" True by simp
    then show ?thesis
      using True batch_seq_run by (rule dial_loop.loop_batch[rotated 2])
  next
    case False
    then show ?thesis
      using "1.prems" by (subst dial_loop_seq.simps) (simp add: dial_loop.loop_exit)
  qed
qed

lemma dialTalosHosts_seq_run:
  "dialTalosHosts dial ips batchSize (dialTalosHosts_seq dial ips batchSize)"
proof (cases "batchSize \<le> 0 \<and> batchSize \<noteq> - 1")
  case True
  then show ?thesis
    by (simp add: dialTalosHosts_seq_def dialTalosHosts.fatal)
next
  case False
  then have "0 < (if batchSize = - 1 then 100 else batchSize)" by auto
  then have "dial_loop dial ips (if batchSize = - 1 then 100 else batchSize) 0
      \<lparr>talosHosts = [], dialed = []\<rparr>
      (dial_loop_seq dial ips (if batchSize = - 1 then 100 else batchSize) 0
        \<lparr>talosHosts = [], dialed = []\<rparr>)"
    by (rule dial_loop_seq_run)
  then have "dialTalosHosts dial ips batchSize
      (Returns (talosHosts (dial_loop_seq dial ips (if batchSize = - 1 then 100 else batchSize) 0
        \<lparr>talosHosts = [], dialed = []\<rparr>), None),
       dialed (dial_loop_seq dial ips (if batchSize = - 1 then 100 else batchSize) 0
        \<lparr>talosHosts = [], dialed = []\<rparr>))"
    using False by (rule dialTalosHosts.returns[rotated])
  moreover have "dialTalosHosts_seq dial ips batchSize =
      (Returns (talosHosts (dial_loop_seq dial ips (if batchSize = - 1 then 100 else batchSize) 0
        \<lparr>talosHosts = [], dialed = []\<rparr>), None),
       dialed (dial_loop_seq dial ips (if batchSize = - 1 then 100 else batchSize) 0
        \<lparr>talosHosts = [], dialed = []\<rparr>))"
    using False unfolding dialTalosHosts_seq_def Let_def by (simp only: if_False)
  ultimately show ?thesis by simp
qed

lemma dialTalosHosts_returns:
  assumes "dialTalosHosts dial ips b r" "0 < b"
  shows "\<exists>hosts. fst r = Returns (hosts, None) \<and> mset hosts = mset (accepted dial ips) \<and>
          mset (snd r) = mset (map target ips)"
  using assms
proof (cases rule: dialTalosHosts.cases)
  case fatal
  then show ?thesis using assms(2) by simp
next
  case (returns st')
  then have "dial_loop dial ips b 0 \<lparr>talosHosts = [], dialed = []\<rparr> st'"
    using assms(2) by (simp split: if_splits)
  from dial_loop_result[OF this assms(2)] show ?thesis
    using returns by simp
qed

lemma batch_step_progress:
  assumes "g \<noteq> {#}"
  shows "\<exists>c'. batch_step dial (g, st) c'"
proof -
  obtain t where t: "t \<in># g" using assms by (meson multiset_nonemptyE)
  show ?thesis
  proof (cases t)
    case (Dialing ip)
    then show ?thesis
      using t batch_step.dial_err[of ip g dial st] batch_step.dial_ok[of ip g dial st] by blast
  next
    case (Connected ip)
    then show ?thesis using t batch_step.append[of ip g dial st] by blast
  qed
qed

lemma batch_step_work_left:
  assumes "batch_step dial c c'"
  shows "work_left (fst c') < work_left (fst c)"
  using assms
proof (cases rule: batch_step.cases)
  case (dial_err ip g st)
  obtain g0 where "g = add_mset (Dialing ip) g0" using dial_err(3) by (meson mset_add)
  then show ?thesis using dial_err by (simp add: work_left_def)
next
  case (dial_ok ip g st)
  obtain g0 where "g = add_mset (Dialing ip) g0" using dial_ok(3) by (meson mset_add)
  then show ?thesis using dial_ok by (simp add: work_left_def)
next
  case (append ip g st)
  obtain g0 where "g = add_mset (Connected ip) g0" using append(3) by (meson mset_add)
  then show ?thesis using append by (simp add: work_left_def)
qed

text \<open>The runs of the worked example, under the sequential schedule.\<close>

lemma run_ex_2:
  "dialTalosHosts dial_ex ips_ex 2
     (Returns ([''10.0.0.1'', ''10.0.0.3''], None),
      [''10.0.0.1:50000'', ''10.0.0.2:50000'', ''10.0.0.3:50000''])"
proof -
  have "dialTalosHosts_seq dial_ex ips_ex 2 =
     (Returns ([''10.0.0.1'', ''10.0.0.3''], None),
      [''10.0.0.1:50000'', ''10.0.0.2:50000'', ''10.0.0.3:50000''])"
    by (simp add: dialTalosHosts_seq_def dial_loop_seq.simps slice_def batch_end_def
        target_def ips_ex_def dial_ex_def)
  then show ?thesis using dialTalosHosts_seq_run[of dial_ex ips_ex 2] by simp
qed

lemma run_ex_1:
  "dialTalosHosts dial_ex ips_ex 1
     (Returns ([''10.0.0.1'', ''10.0.0.3''], None),
      [''10.0.0.1:50000'', ''10.0.0.2:50000'', ''10.0.0.3:50000''])"
proof -
  have "dialTalosHosts_seq dial_ex ips_ex 1 =
     (Returns ([''10.0.0.1'', ''10.0.0.3''], None),
      [''10.0.0.1:50000'', ''10.0.0.2:50000'', ''10.0.0.3:50000''])"
    by (simp add: dialTalosHosts_seq_def dial_loop_seq.simps slice_def batch_end_def
        target_def ips_ex_def dial_ex_def)
  then show ?thesis using dialTalosHosts_seq_run[of dial_ex ips_ex 1] by simp
qed

lemma run_ex_sentinel:
  "dialTalosHosts dial_ex ips_ex (- 1)
     (Returns ([''10.0.0.1'', ''10.0.0.3''], None),
      [''10.0.0.1:50000'', ''10.0.0.2:50000'', ''10.0.0.3:50000''])"
proof -
  have "dialTalosHosts_seq dial_ex ips_ex (- 1) =
     (Returns ([''10.0.0.1'', ''10.0.0.3''], None),
      [''10.0.0.1:50000'', ''10.0.0.2:50000'', ''10.0.0.3:50000''])"
    by (simp add: dialTalosHosts_seq_def dial_loop_seq.simps slice_def batch_end_def
        target_def ips_ex_def dial_ex_def)
  then show ?thesis using dialTalosHosts_seq_run[of dial_ex ips_ex "- 1"] by simp
qed

text \<open>
  C4. For a positive batch size the prober always has a run that returns, every run
  returns, and whatever the schedule of the goroutines the returned addresses are,
  as a set (and even counted with multiplicity), the input addresses that the
  oracle accepts. Two runs with two positive batch sizes return the same set. A
  failed dial only removes its goroutine: no rule of \<open>batch_step\<close> ends the batch
  or the call.
\<close>

theorem probe_reachable_set:
  assumes "0 < b"
  shows "(\<exists>hosts tr. dialTalosHosts dial ips b (Returns (hosts, None), tr)) \<and>
    (dialTalosHosts dial ips b (out, tr) \<longrightarrow>
       (\<exists>hosts. out = Returns (hosts, None) \<and>
          set hosts = {ip \<in> set ips. dial (target ip)} \<and>
          mset hosts = mset (accepted dial ips))) \<and>
    (0 < b' \<and> dialTalosHosts dial ips b (Returns (hosts1, e1), tr1) \<and>
       dialTalosHosts dial ips b' (Returns (hosts2, e2), tr2) \<longrightarrow> set hosts1 = set hosts2)"
proof -
  have char: "\<exists>hosts. out = Returns (hosts, None) \<and>
          set hosts = {ip \<in> set ips. dial (target ip)} \<and>
          mset hosts = mset (accepted dial ips)"
    if r: "dialTalosHosts dial ips c (out, tr)" "0 < c" for c out tr
  proof -
    obtain hosts where h: "out = Returns (hosts, None)" "mset hosts = mset (accepted dial ips)"
      using dialTalosHosts_returns[OF r] by auto
    have "set hosts = set (accepted dial ips)" using h(2) by (rule mset_eq_setD)
    then have "set hosts = {ip \<in> set ips. dial (target ip)}" by (simp add: accepted_def)
    then show ?thesis using h by blast
  qed
  have run: "dialTalosHosts dial ips b (dialTalosHosts_seq dial ips b)"
    by (rule dialTalosHosts_seq_run)
  obtain out0 tr0 where ot: "dialTalosHosts_seq dial ips b = (out0, tr0)"
    by (cases "dialTalosHosts_seq dial ips b")
  then have 1: "\<exists>hosts tr. dialTalosHosts dial ips b (Returns (hosts, None), tr)"
    using char[of b out0 tr0] run assms by auto
  have 3: "set hosts1 = set hosts2"
    if r: "0 < b'" "dialTalosHosts dial ips b (Returns (hosts1, e1), tr1)"
       "dialTalosHosts dial ips b' (Returns (hosts2, e2), tr2)"
    using char[OF r(2) assms] char[OF r(3) r(1)] by auto
  have 2: "dialTalosHosts dial ips b (out, tr) \<longrightarrow>
       (\<exists>hosts. out = Returns (hosts, None) \<and>
          set hosts = {ip \<in> set ips. dial (target ip)} \<and>
          mset hosts = mset (accepted dial ips))"
    using char[of b out tr] assms by blast
  show ?thesis using 1 2 3 by blast
qed

theorem probe_reachable_set_witness:
  "(0::int) < 2 \<and> (0::int) < 1 \<and>
   dialTalosHosts dial_ex ips_ex 2
     (Returns ([''10.0.0.1'', ''10.0.0.3''], None),
      [''10.0.0.1:50000'', ''10.0.0.2:50000'', ''10.0.0.3:50000'']) \<and>
   dialTalosHosts dial_ex ips_ex 1
     (Returns ([''10.0.0.1'', ''10.0.0.3''], None),
      [''10.0.0.1:50000'', ''10.0.0.2:50000'', ''10.0.0.3:50000'']) \<and>
   set [''10.0.0.1'', ''10.0.0.3''] = {ip \<in> set ips_ex. dial_ex (target ip)}"
proof -
  have pos: "(0::int) < 2" by simp
  show ?thesis
    using probe_reachable_set[OF pos, of dial_ex ips_ex
        "Returns ([''10.0.0.1'', ''10.0.0.3''], None)"
        "[''10.0.0.1:50000'', ''10.0.0.2:50000'', ''10.0.0.3:50000'']"]
      run_ex_2 run_ex_1
    by auto
qed

text \<open>
  C10. Whenever \<open>dialTalosHosts\<close> returns to its caller, the error it returns is nil.
\<close>

theorem prober_error_is_nil:
  "dialTalosHosts dial ips batchSize (Returns (hosts, err), tr) \<Longrightarrow> err = None"
  by (erule dialTalosHosts.cases) simp_all

theorem prober_error_is_nil_witness:
  "\<exists>hosts err tr. dialTalosHosts dial_ex ips_ex 2 (Returns (hosts, err), tr) \<and> err = None"
  using prober_error_is_nil[OF run_ex_2] run_ex_2 by blast

text \<open>
  C6, as amended. With the sentinel \<open>-1\<close> the prober has exactly the runs it has with
  batch size 100. With zero or any other negative batch size the only thing a
  call does is \<open>log.Fatal\<close> with a fixed message, before any dial: the process
  ends there, nothing is returned to the caller, and the message is the same
  for every invalid value.
\<close>

theorem batch_size_guard:
  "(dialTalosHosts dial ips (- 1) r \<longleftrightarrow> dialTalosHosts dial ips 100 r) \<and>
   (batchSize \<le> 0 \<and> batchSize \<noteq> - 1 \<longrightarrow>
      (dialTalosHosts dial ips batchSize r \<longleftrightarrow>
         r = (Fatal ''batch size cannot be less than or equal to 0'', [])))"
  by (auto simp: dialTalosHosts.simps)

theorem batch_size_guard_witness:
  "(0::int) \<le> 0 \<and> (0::int) \<noteq> - 1 \<and>
   dialTalosHosts dial_ex ips_ex 0 (Fatal ''batch size cannot be less than or equal to 0'', []) \<and>
   dialTalosHosts dial_ex ips_ex 100
     (Returns ([''10.0.0.1'', ''10.0.0.3''], None),
      [''10.0.0.1:50000'', ''10.0.0.2:50000'', ''10.0.0.3:50000''])"
  using batch_size_guard[of dial_ex ips_ex
      "(Returns ([''10.0.0.1'', ''10.0.0.3''], None),
        [''10.0.0.1:50000'', ''10.0.0.2:50000'', ''10.0.0.3:50000''])" 0]
    batch_size_guard[of dial_ex ips_ex
      "(Fatal ''batch size cannot be less than or equal to 0'', [])" 0]
    run_ex_sentinel
  by simp

text \<open>The claim as stated fails: for the batch sizes \<open>-7\<close> and \<open>0\<close> no run returns
  anything to the caller, an error included, and both end with the same message,
  which names neither value.\<close>

theorem batch_size_error_not_returned:
  "dialTalosHosts dial_ex ips_ex (- 7) (Fatal ''batch size cannot be less than or equal to 0'', []) \<and>
   dialTalosHosts dial_ex ips_ex 0 (Fatal ''batch size cannot be less than or equal to 0'', []) \<and>
   \<not> (\<exists>res tr. dialTalosHosts dial_ex ips_ex (- 7) (Returns res, tr)) \<and>
   \<not> (\<exists>res tr. dialTalosHosts dial_ex ips_ex 0 (Returns res, tr))"
  by (auto simp: dialTalosHosts.simps)

section \<open>Properties of the prober, step by step\<close>

lemma slice_bounds:
  assumes "0 < b" "0 \<le> i" "i < int (length ips)"
  shows "slice ips i (batch_end ips i b) \<noteq> []"
    and "int (length (slice ips i (batch_end ips i b))) \<le> b"
    and "take (nat i) ips @ slice ips i (batch_end ips i b) = take (nat (i + b)) ips"
proof -
  let ?e = "batch_end ips i b"
  have e: "i < ?e" "?e \<le> int (length ips)" "?e \<le> i + b"
    using assms by (auto simp: batch_end_def)
  have "nat (?e - i) \<le> length ips - nat i" using e assms by linarith
  then have len: "length (slice ips i ?e) = nat (?e - i)"
    by (simp add: slice_def)
  show "slice ips i ?e \<noteq> []" using len e by auto
  show "int (length (slice ips i ?e)) \<le> b" using len e by simp
  have "take (nat i) ips @ slice ips i ?e = take (nat i + nat (?e - i)) ips"
    by (simp add: slice_def take_add)
  also have "nat i + nat (?e - i) = nat ?e" using e assms by simp
  also have "take (nat ?e) ips = take (nat (i + b)) ips"
    using assms by (auto simp: batch_end_def)
  finally show "take (nat i) ips @ slice ips i ?e = take (nat (i + b)) ips" .
qed

lemma holders_launch:
  "filter_mset (\<lambda>w. phase w = InCritical \<or> phase w = AtUnlock)
     (mset (map (\<lambda>ip. Worker ip AtDial) batch)) = {#}"
  by (induction batch) simp_all

lemma host_launch: "image_mset host (mset (map (\<lambda>ip. Worker ip AtDial) batch)) = mset batch"
  by (induction batch) simp_all

lemma call_inv_init: "call_inv ips b init_call"
  by (simp add: call_inv_def init_call_def holders_def frontier_def)

lemma call_inv_step:
  assumes "call_step dial ips b c c'" "call_inv ips b c" "0 < b"
  shows "call_inv ips b c'"
  using assms(1)
proof (cases rule: call_step.cases)
  case (launch batch)
  have r: "running c = {#}" using assms(2) launch(2) by (simp add: call_inv_def)
  have i: "0 \<le> index c" using assms(2) by (simp add: call_inv_def)
  note sb = slice_bounds[OF assms(3) i launch(3)]
  show ?thesis
    using assms(2) launch r sb
    by (auto simp add: call_inv_def holders_def frontier_def multiset.map_comp comp_def)
next
  case wait
  then show ?thesis
    using assms(2,3) by (simp add: call_inv_def holders_def frontier_def)
next
  case exit
  then show ?thesis
    using assms(2) by (auto simp add: call_inv_def holders_def frontier_def split: if_splits)
next
  case (dial_failed ip)
  obtain g where g: "running c = add_mset (Worker ip AtDial) g"
    using dial_failed(2) by (meson mset_add)
  have "pc c = AtWait" using assms(2) g by (auto simp: call_inv_def)
  moreover have "image_mset host g \<subseteq># mset (last (launched c))"
    using assms(2) g by (auto simp: call_inv_def intro: subset_mset.order_trans[rotated])
  ultimately show ?thesis
    using assms(2) dial_failed g
    by (simp add: call_inv_def holders_def frontier_def)
next
  case (dial_succeeded ip)
  obtain g where g: "running c = add_mset (Worker ip AtDial) g"
    using dial_succeeded(2) by (meson mset_add)
  have "pc c = AtWait" using assms(2) g by (auto simp: call_inv_def)
  then show ?thesis
    using assms(2) dial_succeeded g
    by (simp add: call_inv_def holders_def frontier_def)
next
  case (lock ip)
  obtain g where g: "running c = add_mset (Worker ip AtLock) g"
    using lock(2) by (meson mset_add)
  have "pc c = AtWait" using assms(2) g by (auto simp: call_inv_def)
  then show ?thesis
    using assms(2) lock g
    by (simp add: call_inv_def holders_def frontier_def)
next
  case (append_host ip)
  obtain g where g: "running c = add_mset (Worker ip InCritical) g"
    using append_host(2) by (meson mset_add)
  have "pc c = AtWait" using assms(2) g by (auto simp: call_inv_def)
  then show ?thesis
    using assms(2) append_host g
    by (simp add: call_inv_def holders_def frontier_def)
next
  case (unlock ip)
  obtain g where g: "running c = add_mset (Worker ip AtUnlock) g"
    using unlock(2) by (meson mset_add)
  have "pc c = AtWait" using assms(2) g by (auto simp: call_inv_def)
  moreover have "image_mset host g \<subseteq># mset (last (launched c))"
    using assms(2) g by (auto simp: call_inv_def intro: subset_mset.order_trans[rotated])
  moreover have "size (filter_mset (\<lambda>w. phase w = InCritical \<or> phase w = AtUnlock) g) = 0"
    using assms(2) g by (auto simp: call_inv_def holders_def split: if_splits)
  ultimately show ?thesis
    using assms(2) unlock g
    by (simp add: call_inv_def holders_def frontier_def)
qed

lemma call_inv_reachable:
  assumes "0 < b" "(call_step dial ips b)\<^sup>*\<^sup>* init_call c"
  shows "call_inv ips b c"
  using assms(2)
proof (induction rule: rtranclp_induct)
  case base
  show ?case by (rule call_inv_init)
next
  case (step y z)
  then show ?case using call_inv_step[OF step(2) _ assms(1)] by simp
qed

text \<open>Every execution of the step-by-step prober that returns is a run of
  \<open>dialTalosHosts\<close>: a step of a goroutine is a step of its batch or leaves the
  coarse view unchanged.\<close>

lemma coarse_empty [simp]: "coarse {#} = {#}"
  by (simp add: coarse_def)

lemma coarse_add [simp]:
  "coarse (add_mset (Worker ip AtDial) g) = add_mset (Dialing ip) (coarse g)"
  "coarse (add_mset (Worker ip AtLock) g) = add_mset (Connected ip) (coarse g)"
  "coarse (add_mset (Worker ip InCritical) g) = add_mset (Connected ip) (coarse g)"
  "coarse (add_mset (Worker ip AtUnlock) g) = coarse g"
  by (simp_all add: coarse_def)

lemma coarse_launch [simp]:
  "coarse (image_mset (\<lambda>ip. Worker ip AtDial) M) = image_mset Dialing M"
  by (induction M) simp_all

lemma worker_step_coarse:
  assumes "call_step dial ips b c c'" "running c \<noteq> {#}" "pc c = AtWait"
  shows "(batch_step dial)\<^sup>*\<^sup>* (coarse (running c), shared c) (coarse (running c'), shared c') \<and>
         pc c' = pc c \<and> index c' = index c"
  using assms(1)
proof (cases rule: call_step.cases)
  case (launch batch)
  then show ?thesis using assms(3) by simp
next
  case wait
  then show ?thesis using assms(2) by simp
next
  case exit
  then show ?thesis using assms(3) by simp
next
  case (dial_failed ip)
  obtain g where g: "running c = add_mset (Worker ip AtDial) g"
    using dial_failed(2) by (meson mset_add)
  have "batch_step dial (add_mset (Dialing ip) (coarse g), shared c)
      (add_mset (Dialing ip) (coarse g) - {#Dialing ip#},
       (shared c)\<lparr>dialed := dialed (shared c) @ [target ip]\<rparr>)"
    using dial_failed(3) by (intro batch_step.dial_err) simp_all
  then show ?thesis using dial_failed g by simp
next
  case (dial_succeeded ip)
  obtain g where g: "running c = add_mset (Worker ip AtDial) g"
    using dial_succeeded(2) by (meson mset_add)
  have "batch_step dial (add_mset (Dialing ip) (coarse g), shared c)
      (add_mset (Dialing ip) (coarse g) - {#Dialing ip#} + {#Connected ip#},
       (shared c)\<lparr>dialed := dialed (shared c) @ [target ip]\<rparr>)"
    using dial_succeeded(3) by (intro batch_step.dial_ok) simp_all
  then show ?thesis using dial_succeeded g by simp
next
  case (lock ip)
  obtain g where g: "running c = add_mset (Worker ip AtLock) g"
    using lock(2) by (meson mset_add)
  then show ?thesis using lock by simp
next
  case (append_host ip)
  obtain g where g: "running c = add_mset (Worker ip InCritical) g"
    using append_host(2) by (meson mset_add)
  have "batch_step dial (add_mset (Connected ip) (coarse g), shared c)
      (add_mset (Connected ip) (coarse g) - {#Connected ip#},
       (shared c)\<lparr>talosHosts := talosHosts (shared c) @ [ip]\<rparr>)"
    by (intro batch_step.append) simp
  then show ?thesis using append_host g by simp
next
  case (unlock ip)
  obtain g where g: "running c = add_mset (Worker ip AtUnlock) g"
    using unlock(2) by (meson mset_add)
  then show ?thesis using unlock by simp
qed

lemma call_refines:
  assumes "0 < b" "(call_step dial ips b)\<^sup>*\<^sup>* init_call c"
  shows "(pc c = LoopHead \<longrightarrow>
           (\<forall>st'. dial_loop dial ips b (index c) (shared c) st' \<longrightarrow>
              dial_loop dial ips b 0 \<lparr>talosHosts = [], dialed = []\<rparr> st')) \<and>
         (pc c = AtWait \<longrightarrow>
           (\<forall>st1 st'. (batch_step dial)\<^sup>*\<^sup>* (coarse (running c), shared c) ({#}, st1) \<longrightarrow>
              dial_loop dial ips b (index c + b) st1 st' \<longrightarrow>
              dial_loop dial ips b 0 \<lparr>talosHosts = [], dialed = []\<rparr> st')) \<and>
         (pc c = Returned \<longrightarrow>
           dial_loop dial ips b 0 \<lparr>talosHosts = [], dialed = []\<rparr> (shared c))"
  using assms(2)
proof (induction rule: rtranclp_induct)
  case base
  show ?case by (simp add: init_call_def)
next
  case (step y z)
  have inv: "call_inv ips b y" using assms(1) step(1) by (rule call_inv_reachable)
  show ?case
  proof (cases "running y = {#}")
    case False
    then have pcy: "pc y = AtWait" using inv by (auto simp: call_inv_def)
    have w: "(batch_step dial)\<^sup>*\<^sup>* (coarse (running y), shared y) (coarse (running z), shared z)"
      "pc z = pc y" "index z = index y"
      using worker_step_coarse[OF step(2) False pcy] by simp_all
    show ?thesis
      using step.IH pcy w by (auto intro: rtranclp_trans)
  next
    case True
    from step(2) show ?thesis
    proof (cases rule: call_step.cases)
      case (launch batch)
      have "dial_loop dial ips b 0 \<lparr>talosHosts = [], dialed = []\<rparr> st'"
        if r: "(batch_step dial)\<^sup>*\<^sup>* (coarse (running z), shared z) ({#}, st1)"
          and l: "dial_loop dial ips b (index z + b) st1 st'" for st1 st'
      proof -
        have "batch_run dial batch (shared y) st1"
          using r launch True by (simp add: batch_run_def)
        then have "dial_loop dial ips b (index y) (shared y) st'"
          using l launch by (intro dial_loop.loop_batch[of "index y" ips dial b "shared y" st1]) simp_all
        then show ?thesis using step.IH launch(2) by simp
      qed
      then show ?thesis using launch by simp
    next
      case wait
      have "(batch_step dial)\<^sup>*\<^sup>* (coarse (running y), shared y) ({#}, shared y)"
        using True by simp
      then show ?thesis using step.IH wait by auto
    next
      case exit
      have "dial_loop dial ips b (index y) (shared y) (shared y)"
        using exit(3) by (rule dial_loop.loop_exit)
      then show ?thesis using step.IH exit by simp
    next
      case (dial_failed ip)
      then show ?thesis using True by simp
    next
      case (dial_succeeded ip)
      then show ?thesis using True by simp
    next
      case (lock ip)
      then show ?thesis using True by simp
    next
      case (append_host ip)
      then show ?thesis using True by simp
    next
      case (unlock ip)
      then show ?thesis using True by simp
    qed
  qed
qed

lemma call_returns_a_run:
  assumes "0 < b" "(call_step dial ips b)\<^sup>*\<^sup>* init_call c" "pc c = Returned"
  shows "dialTalosHosts dial ips b (Returns (talosHosts (shared c), None), dialed (shared c))"
proof -
  have "dial_loop dial ips b 0 \<lparr>talosHosts = [], dialed = []\<rparr> (shared c)"
    using call_refines[OF assms(1,2)] assms(3) by simp
  then have "dial_loop dial ips (if b = - 1 then 100 else b) 0
      \<lparr>talosHosts = [], dialed = []\<rparr> (shared c)"
    using assms(1) by simp
  moreover have "\<not> (b \<le> 0 \<and> b \<noteq> - 1)" using assms(1) by simp
  ultimately show ?thesis by (rule dialTalosHosts.returns[rotated])
qed

text \<open>The state of the worked example is reached by a launch, a successful dial and
  a lock.\<close>

lemma call_ex_reachable: "(call_step dial_ex ips_ex 2)\<^sup>*\<^sup>* init_call call_ex"
proof -
  let ?batch = "[''10.0.0.1'', ''10.0.0.2'']"
  let ?c1 = "\<lparr> pc = AtWait, index = 0,
       running = {#Worker ''10.0.0.1'' AtDial, Worker ''10.0.0.2'' AtDial#},
       mu_held = False, launched = [?batch],
       shared = \<lparr>talosHosts = [], dialed = []\<rparr> \<rparr>"
  let ?c2 = "\<lparr> pc = AtWait, index = 0,
       running = {#Worker ''10.0.0.1'' AtLock, Worker ''10.0.0.2'' AtDial#},
       mu_held = False, launched = [?batch],
       shared = \<lparr>talosHosts = [], dialed = [''10.0.0.1:50000'']\<rparr> \<rparr>"
  have "call_step dial_ex ips_ex 2 init_call
      (init_call\<lparr>pc := AtWait,
          running := running init_call + mset (map (\<lambda>ip. Worker ip AtDial) ?batch),
          launched := launched init_call @ [?batch]\<rparr>)"
    by (rule call_step.launch) (simp_all add: init_call_def ips_ex_def slice_def batch_end_def)
  then have s1: "call_step dial_ex ips_ex 2 init_call ?c1"
    by (simp add: init_call_def)
  have "call_step dial_ex ips_ex 2 ?c1
      (?c1\<lparr>running := running ?c1 - {#Worker ''10.0.0.1'' AtDial#} + {#Worker ''10.0.0.1'' AtLock#},
          shared := (shared ?c1)\<lparr>dialed := dialed (shared ?c1) @ [target ''10.0.0.1'']\<rparr>\<rparr>)"
    by (rule call_step.dial_succeeded) (simp_all add: dial_ex_def target_def)
  then have s2: "call_step dial_ex ips_ex 2 ?c1 ?c2"
    by (simp add: target_def)
  have "call_step dial_ex ips_ex 2 ?c2
      (?c2\<lparr>running := running ?c2 - {#Worker ''10.0.0.1'' AtLock#} + {#Worker ''10.0.0.1'' InCritical#},
          mu_held := True\<rparr>)"
    by (rule call_step.lock) simp_all
  then have s3: "call_step dial_ex ips_ex 2 ?c2 call_ex"
    by (simp add: call_ex_def)
  show ?thesis using s1 s2 s3 by (meson rtranclp.rtrancl_into_rtrancl rtranclp.rtrancl_refl)
qed

text \<open>
  C8. For a positive batch size, in every state that a call can reach: at most
  \<open>b\<close> goroutines are in flight, so at most \<open>b\<close> connection attempts are
  outstanding; the batches launched so far are non-empty, at most \<open>b\<close> long, and
  together a prefix of the address list (the whole list once the call has
  returned), so they cut it into consecutive pieces; a batch is launched only
  when no goroutine is in flight, and every goroutine in flight belongs to the
  batch launched last, so no attempt of a batch starts before the batch before it
  has drained; at most one goroutine is between \<open>mu.Lock()\<close> and
  \<open>mu.Unlock()\<close>, the mutex is held exactly when there is one, and the shared
  slice changes only by the append of the goroutine that holds it.
\<close>

theorem batches_bound_concurrency:
  assumes "0 < b" "(call_step dial ips b)\<^sup>*\<^sup>* init_call c"
  shows "int (size (running c)) \<le> b \<and> int (size (attempts c)) \<le> b \<and>
    (pc c \<noteq> AtWait \<longrightarrow> running c = {#}) \<and>
    (running c \<noteq> {#} \<longrightarrow>
       launched c \<noteq> [] \<and> image_mset host (running c) \<subseteq># mset (last (launched c))) \<and>
    (\<forall>batch \<in> set (launched c). batch \<noteq> [] \<and> int (length batch) \<le> b) \<and>
    concat (launched c) = take (frontier b c) ips \<and>
    (pc c = Returned \<longrightarrow> concat (launched c) = ips) \<and>
    size (holders c) \<le> 1 \<and> (mu_held c \<longleftrightarrow> holders c \<noteq> {#}) \<and>
    (\<forall>c'. call_step dial ips b c c' \<and> launched c' \<noteq> launched c \<longrightarrow> running c = {#}) \<and>
    (\<forall>c'. call_step dial ips b c c' \<and> talosHosts (shared c') \<noteq> talosHosts (shared c) \<longrightarrow>
       mu_held c \<and>
       (\<exists>ip. Worker ip InCritical \<in># running c \<and>
          talosHosts (shared c') = talosHosts (shared c) @ [ip]))"
proof -
  have inv: "call_inv ips b c" using assms by (rule call_inv_reachable)
  have idle: "pc c \<noteq> AtWait \<longrightarrow> running c = {#}" using inv by (simp add: call_inv_def)
  have last_batch: "running c \<noteq> {#} \<longrightarrow>
       launched c \<noteq> [] \<and> image_mset host (running c) \<subseteq># mset (last (launched c))"
    using inv by (simp add: call_inv_def)
  have batches: "\<forall>batch \<in> set (launched c). batch \<noteq> [] \<and> int (length batch) \<le> b"
    using inv by (simp add: call_inv_def)
  have covered: "concat (launched c) = take (frontier b c) ips"
    using inv by (simp add: call_inv_def)
  have all: "pc c = Returned \<longrightarrow> concat (launched c) = ips"
    using inv by (auto simp: call_inv_def frontier_def)
  have h: "size (holders c) = (if mu_held c then 1 else 0)"
    using inv by (simp add: call_inv_def)
  have size: "int (size (running c)) \<le> b"
  proof (cases "running c = {#}")
    case True
    then show ?thesis using assms(1) by simp
  next
    case False
    then have l: "launched c \<noteq> []" and sub: "image_mset host (running c) \<subseteq># mset (last (launched c))"
      using last_batch by simp_all
    have "size (running c) = size (image_mset host (running c))" by simp
    also have "\<dots> \<le> size (mset (last (launched c)))" using sub by (rule size_mset_mono)
    finally have "size (running c) \<le> length (last (launched c))" by simp
    moreover have "int (length (last (launched c))) \<le> b" using batches l by simp
    ultimately show ?thesis by linarith
  qed
  have "size (attempts c) \<le> size (running c)"
    unfolding attempts_def by (rule size_filter_mset_lesseq)
  then have att: "int (size (attempts c)) \<le> b" using size by linarith
  have launch_idle: "running c = {#}"
    if "call_step dial ips b c c'" "launched c' \<noteq> launched c" for c'
    using that idle by (cases rule: call_step.cases) simp_all
  have append_locked: "mu_held c \<and>
       (\<exists>ip. Worker ip InCritical \<in># running c \<and>
          talosHosts (shared c') = talosHosts (shared c) @ [ip])"
    if "call_step dial ips b c c'" "talosHosts (shared c') \<noteq> talosHosts (shared c)" for c'
    using that
  proof (cases rule: call_step.cases)
    case (append_host ip)
    then have "Worker ip InCritical \<in># holders c" by (simp add: holders_def)
    then have "mu_held c" using h by (auto split: if_splits)
    then show ?thesis using append_host by auto
  qed simp_all
  have h1: "size (holders c) \<le> 1" using h by simp
  have h2: "mu_held c \<longleftrightarrow> holders c \<noteq> {#}" using h by (auto split: if_splits)
  show ?thesis
    using size att idle last_batch batches covered all h1 h2 launch_idle append_locked
    by blast
qed

theorem batches_bound_concurrency_witness:
  "(0::int) < 2 \<and> (call_step dial_ex ips_ex 2)\<^sup>*\<^sup>* init_call call_ex \<and>
   int (size (running call_ex)) \<le> 2 \<and> size (holders call_ex) \<le> 1 \<and>
   mu_held call_ex \<and> holders call_ex \<noteq> {#} \<and> pc call_ex = AtWait \<and>
   image_mset host (running call_ex) \<subseteq># mset (last (launched call_ex))"
proof -
  have pos: "(0::int) < 2" by simp
  have "running call_ex \<noteq> {#}" "mu_held call_ex" "pc call_ex = AtWait"
    by (simp_all add: call_ex_def)
  then show ?thesis
    using batches_bound_concurrency[OF pos call_ex_reachable] call_ex_reachable by simp
qed

section \<open>Properties of the enumerator\<close>

subsection \<open>The increment as arithmetic on the value of the address\<close>

lemma ipval_Nil [simp]: "ipval [] = 0"
  by (simp add: ipval_def)

lemma ipval_snoc [simp]: "ipval (p @ [b]) = ipval p * 256 + unat b"
  by (simp add: ipval_def)

lemma ipval_bound: "ipval ip < 256 ^ length ip"
proof (induction ip rule: rev_induct)
  case Nil
  then show ?case by simp
next
  case (snoc b p)
  have "unat b < 256" using unsigned_less[of b, where 'a = nat] by simp
  then have "ipval p * 256 + unat b < (ipval p + 1) * 256" by simp
  also have "\<dots> \<le> 256 ^ length p * 256" using snoc.IH by (intro mult_right_mono) simp_all
  finally show ?case by simp
qed

lemma ipval_append: "ipval (p @ q) = ipval p * 256 ^ length q + ipval q"
  by (induction q rule: rev_induct) (simp_all add: algebra_simps flip: append_assoc)

lemma ipval_Cons: "ipval (b # bs) = unat b * 256 ^ length bs + ipval bs"
  using ipval_append[of "[b]" bs] ipval_snoc[of "[]" b] by simp

lemma ipval_inj: "length a = length b \<Longrightarrow> ipval a = ipval b \<Longrightarrow> a = b"
proof (induction a b rule: list_induct2)
  case Nil
  then show ?case by simp
next
  case (Cons x xs y ys)
  have bx: "ipval xs < 256 ^ length xs" and by': "ipval ys < 256 ^ length xs"
    using ipval_bound[of xs] ipval_bound[of ys] Cons.hyps by simp_all
  have e: "unat x * 256 ^ length xs + ipval xs = unat y * 256 ^ length xs + ipval ys"
    using Cons.prems Cons.hyps by (simp add: ipval_Cons)
  have "(unat x * 256 ^ length xs + ipval xs) div 256 ^ length xs = unat x" using bx by simp
  moreover have "(unat y * 256 ^ length xs + ipval ys) div 256 ^ length xs = unat y" using by' by simp
  ultimately have "unat x = unat y" using e by simp
  then have "x = y" by (simp add: word_unat_eq_iff)
  moreover have "ipval xs = ipval ys" using e \<open>unat x = unat y\<close> by simp
  ultimately show ?case using Cons.IH by simp
qed

lemma length_nextIP_loop [simp]: "length (nextIP_loop j ip) = length ip"
  by (induction j arbitrary: ip) (simp_all add: Let_def)

lemma length_nextIP [simp]: "length (nextIP ip) = length ip"
  by (simp add: nextIP_def)

lemma nextIP_loop_append:
  "nextIP_loop (length p) (p @ q) = nextIP_loop (length p) p @ q"
proof (induction p arbitrary: q rule: rev_induct)
  case Nil
  then show ?case by simp
next
  case (snoc b p)
  have A: "nextIP_loop (length p) (p @ c # q) = nextIP_loop (length p) p @ c # q" for c
    using snoc.IH[of "c # q"] by simp
  have B: "nextIP_loop (length p) (p @ [c]) = nextIP_loop (length p) p @ [c]" for c
    using snoc.IH[of "[c]"] by simp
  show ?case by (simp add: Let_def nth_append A B)
qed

lemma ipval_nextIP: "ipval (nextIP ip) = (ipval ip + 1) mod 256 ^ length ip"
proof (induction ip rule: rev_induct)
  case Nil
  then show ?case by (simp add: nextIP_def)
next
  case (snoc b p)
  have loop: "nextIP_loop (length p) (p @ [b + 1]) = nextIP p @ [b + 1]"
    using nextIP_loop_append[of p "[b + 1]"] by (simp add: nextIP_def)
  have u: "unat (b + 1) = (unat b + 1) mod 256"
    by (simp add: unat_word_ariths)
  have lt: "unat b < 256" using unsigned_less[of b, where 'a = nat] by simp
  show ?case
  proof (cases "b + 1 = 0")
    case True
    then have "(unat b + 1) mod 256 = 0" using u by simp
    then have b: "unat b = 255" using lt by (simp add: mod_eq_0_iff_dvd) presburger
    have "nextIP (p @ [b]) = nextIP p @ [0]"
      using True loop by (simp add: nextIP_def Let_def nth_append)
    then have "ipval (nextIP (p @ [b])) = ((ipval p + 1) mod 256 ^ length p) * 256"
      using snoc.IH by simp
    also have "\<dots> = ((ipval p + 1) * 256) mod (256 ^ length p * 256)"
      by (rule mult_mod_left)
    finally show ?thesis using b by (simp add: mult.commute)
  next
    case False
    then have "(unat b + 1) mod 256 \<noteq> 0" using u by (metis unat_eq_zero)
    then have small: "unat b + 1 < 256" using lt by (cases "unat b = 255") auto
    then have "unat (b + 1) = unat b + 1" using u by simp
    moreover have "nextIP (p @ [b]) = p @ [b + 1]"
      using False by (simp add: nextIP_def Let_def nth_append)
    moreover have "ipval p * 256 + unat b + 1 < 256 ^ length p * 256"
    proof -
      have "ipval p * 256 + unat b + 1 < (ipval p + 1) * 256" using small by simp
      also have "\<dots> \<le> 256 ^ length p * 256" using ipval_bound[of p] by (intro mult_right_mono) simp_all
      finally show ?thesis by simp
    qed
    ultimately show ?thesis by simp
  qed
qed

subsection \<open>Prefix masks as division by a power of two\<close>

lemma cidr_byte: "n < 8 \<Longrightarrow> NOT (drop_bit n (0xff :: byte)) = NOT (mask (8 - n))"
proof -
  assume "n < 8"
  then consider "n = 0" | "n = 1" | "n = 2" | "n = 3" | "n = 4" | "n = 5" | "n = 6" | "n = 7"
    by linarith
  then show ?thesis
    by cases (simp_all add: mask_eq_exp_minus_1)
qed

lemma drop_bit_and_not_mask:
  fixes x :: byte
  shows "drop_bit k (x AND NOT (mask k)) = drop_bit k x"
  by (rule bit_word_eqI) (auto simp: bit_simps dest: bit_imp_le_length)

lemma and_not_mask_push:
  fixes x :: byte
  shows "x AND NOT (mask k) = push_bit k (drop_bit k x)"
  by (rule bit_word_eqI) (auto simp: bit_simps)

lemma byte_mask_eq:
  fixes x y :: byte
  shows "x AND NOT (mask k) = y AND NOT (mask k) \<longleftrightarrow> unat x div 2 ^ k = unat y div 2 ^ k"
proof -
  have "x AND NOT (mask k) = y AND NOT (mask k) \<longleftrightarrow> drop_bit k x = drop_bit k y"
  proof
    assume "x AND NOT (mask k) = y AND NOT (mask k)"
    then have "drop_bit k (x AND NOT (mask k)) = drop_bit k (y AND NOT (mask k))" by simp
    then show "drop_bit k x = drop_bit k y" by (simp only: drop_bit_and_not_mask)
  next
    assume "drop_bit k x = drop_bit k y"
    then show "x AND NOT (mask k) = y AND NOT (mask k)" by (simp only: and_not_mask_push)
  qed
  also have "\<dots> \<longleftrightarrow> unat (drop_bit k x) = unat (drop_bit k y)"
    by (simp add: word_unat_eq_iff)
  also have "\<dots> \<longleftrightarrow> unat x div 2 ^ k = unat y div 2 ^ k"
    unfolding unat_drop_bit_eq by (simp only: drop_bit_eq_div)
  finally show ?thesis .
qed

lemma byte_mask_dvd:
  fixes x :: byte
  shows "2 ^ k dvd unat (x AND NOT (mask k))"
  by (simp add: and.assoc and_mask_dvd_nat)

lemma byte_and_ff: "(x :: byte) AND 0xff = x"
proof -
  have "(0xff :: byte) = - 1" by simp
  then show ?thesis by (simp only: and.right_neutral)
qed

lemma length_CIDRMask_loop [simp]: "length (CIDRMask_loop l n) = l"
  by (induction l arbitrary: n) simp_all

lemma CIDRMask_loop_0: "CIDRMask_loop l 0 = replicate l 0"
  by (induction l) simp_all

lemma masked_Cons [simp]: "masked (x # xs) (m # ms) = (x AND m) # masked xs ms"
  by (simp add: masked_def)

lemma masked_Nil [simp]: "masked [] ms = []"
  by (simp add: masked_def)

lemma length_masked [simp]: "length (masked ip m) = min (length ip) (length m)"
  by (simp add: masked_def)

lemma masked_zero: "length xs = l \<Longrightarrow> masked xs (replicate l 0) = replicate l 0"
  by (induction xs arbitrary: l) auto

lemma ipval_replicate_0 [simp]: "ipval (replicate l 0) = 0"
  by (induction l) (simp_all add: ipval_Cons)

lemma pow256: "(256::nat) ^ l = 2 ^ (8 * l)"
  by (simp add: power_mult)

lemma div_split_high:
  fixes u r K P :: nat
  assumes "0 < P"
  shows "(u * (K * P) + r) div P = u * K + r div P"
proof -
  have "(u * (K * P) + r) div P = (r + (u * K) * P) div P" by (simp add: algebra_simps)
  also have "\<dots> = r div P + u * K" using assms by simp
  finally show ?thesis by simp
qed

lemma digits_eq_iff:
  fixes u v r1 r2 K :: nat
  assumes "r1 < K" "r2 < K"
  shows "u * K + r1 = v * K + r2 \<longleftrightarrow> u = v \<and> r1 = r2"
proof
  assume e: "u * K + r1 = v * K + r2"
  have "(u * K + r1) div K = u" "(v * K + r2) div K = v" using assms by simp_all
  then have "u = v" using e by simp
  then show "u = v \<and> r1 = r2" using e by simp
qed simp

lemma div_drop_low:
  fixes u r Q P :: nat
  assumes "r < Q"
  shows "(u * Q + r) div (Q * P) = u div P"
proof -
  have "(u * Q + r) div (Q * P) = ((u * Q + r) div Q) div P" by (simp add: div_mult2_eq)
  then show ?thesis using assms by simp
qed

lemma mask_div:
  "length a = l \<Longrightarrow> length b = l \<Longrightarrow> n \<le> 8 * l \<Longrightarrow>
   (masked a (CIDRMask_loop l n) = masked b (CIDRMask_loop l n)) \<longleftrightarrow>
   (ipval a div 2 ^ (8 * l - n) = ipval b div 2 ^ (8 * l - n))"
proof (induction l arbitrary: a b n)
  case 0
  then show ?case by simp
next
  case (Suc l)
  obtain x xs where a: "a = x # xs" "length xs = l" using Suc.prems(1) by (auto simp: length_Suc_conv)
  obtain y ys where b: "b = y # ys" "length ys = l" using Suc.prems(2) by (auto simp: length_Suc_conv)
  have bx: "ipval xs < 2 ^ (8 * l)" and by': "ipval ys < 2 ^ (8 * l)"
    using ipval_bound[of xs] ipval_bound[of ys] a(2) b(2) by (simp_all add: pow256)
  show ?case
  proof (cases "n \<ge> 8")
    case True
    define h where "h = 8 * l - (n - 8)"
    have h: "8 * Suc l - n = h" "h \<le> 8 * l" using True Suc.prems(3) by (simp_all add: h_def)
    define K :: nat where "K = 2 ^ (8 * l - h)"
    have KP: "(2::nat) ^ (8 * l) = K * 2 ^ h" using h(2) by (simp add: K_def flip: power_add)
    have rx: "ipval xs div 2 ^ h < K" using bx KP by (simp add: less_mult_imp_div_less)
    have ry: "ipval ys div 2 ^ h < K" using by' KP by (simp add: less_mult_imp_div_less)
    have vx: "ipval a div 2 ^ h = unat x * K + ipval xs div 2 ^ h"
      using div_split_high[of "2 ^ h" "unat x" K "ipval xs"] a by (simp add: ipval_Cons pow256 KP)
    have vy: "ipval b div 2 ^ h = unat y * K + ipval ys div 2 ^ h"
      using div_split_high[of "2 ^ h" "unat y" K "ipval ys"] b by (simp add: ipval_Cons pow256 KP)
    have IH: "masked xs (CIDRMask_loop l (n - 8)) = masked ys (CIDRMask_loop l (n - 8)) \<longleftrightarrow>
        ipval xs div 2 ^ h = ipval ys div 2 ^ h"
      unfolding h_def using Suc.IH[OF a(2) b(2), of "n - 8"] Suc.prems(3) True by simp
    have "masked a (CIDRMask_loop (Suc l) n) = masked b (CIDRMask_loop (Suc l) n) \<longleftrightarrow>
        x = y \<and> ipval xs div 2 ^ h = ipval ys div 2 ^ h"
      using True a b IH by (simp add: byte_and_ff)
    also have "\<dots> \<longleftrightarrow> unat x = unat y \<and> ipval xs div 2 ^ h = ipval ys div 2 ^ h"
      by (simp add: word_unat_eq_iff)
    also have "\<dots> \<longleftrightarrow> ipval a div 2 ^ h = ipval b div 2 ^ h"
      unfolding vx vy using digits_eq_iff[OF rx ry] by simp
    finally show ?thesis by (simp only: h(1))
  next
    case False
    then have n: "n < 8" by simp
    have e: "8 * Suc l - n = 8 * l + (8 - n)" using n by simp
    have vx: "ipval a div 2 ^ (8 * l + (8 - n)) = unat x div 2 ^ (8 - n)"
      using div_drop_low[OF bx, of "unat x" "2 ^ (8 - n)"] a by (simp add: ipval_Cons pow256 power_add)
    have vy: "ipval b div 2 ^ (8 * l + (8 - n)) = unat y div 2 ^ (8 - n)"
      using div_drop_low[OF by', of "unat y" "2 ^ (8 - n)"] b by (simp add: ipval_Cons pow256 power_add)
    have "masked a (CIDRMask_loop (Suc l) n) = masked b (CIDRMask_loop (Suc l) n) \<longleftrightarrow>
        x AND NOT (mask (8 - n)) = y AND NOT (mask (8 - n))"
      using n a b by (simp add: cidr_byte CIDRMask_loop_0 masked_zero)
    also have "\<dots> \<longleftrightarrow> unat x div 2 ^ (8 - n) = unat y div 2 ^ (8 - n)"
      by (rule byte_mask_eq)
    finally show ?thesis by (simp only: e vx vy)
  qed
qed

lemma mask_dvd:
  "length a = l \<Longrightarrow> n \<le> 8 * l \<Longrightarrow> 2 ^ (8 * l - n) dvd ipval (masked a (CIDRMask_loop l n))"
proof (induction l arbitrary: a n)
  case 0
  then show ?case by simp
next
  case (Suc l)
  obtain x xs where a: "a = x # xs" "length xs = l" using Suc.prems(1) by (auto simp: length_Suc_conv)
  show ?case
  proof (cases "n \<ge> 8")
    case True
    define h where "h = 8 * l - (n - 8)"
    have h: "8 * Suc l - n = h" "h \<le> 8 * l" using True Suc.prems(2) by (simp_all add: h_def)
    have "2 ^ h dvd ipval (masked xs (CIDRMask_loop l (n - 8)))"
      unfolding h_def using Suc.IH[OF a(2), of "n - 8"] Suc.prems(2) True by simp
    moreover have "(2::nat) ^ h dvd 2 ^ (8 * l)" using h(2) by (simp add: le_imp_power_dvd)
    ultimately have "2 ^ h dvd unat x * 2 ^ (8 * l) + ipval (masked xs (CIDRMask_loop l (n - 8)))"
      by (simp add: dvd_add)
    then show ?thesis using True a by (simp add: ipval_Cons pow256 byte_and_ff h(1)[simplified])
  next
    case False
    then have n: "n < 8" by simp
    have e: "8 * Suc l - n = (8 - n) + 8 * l" using n by simp
    have "2 ^ (8 - n) dvd unat (x AND NOT (mask (8 - n)))" by (rule byte_mask_dvd)
    then have d: "2 ^ (8 - n) * 2 ^ (8 * l) dvd unat (x AND NOT (mask (8 - n))) * 2 ^ (8 * l)"
      by (rule mult_dvd_mono) simp
    have val: "ipval (masked a (CIDRMask_loop (Suc l) n)) = unat (x AND NOT (mask (8 - n))) * 2 ^ (8 * l)"
      using n a by (simp add: cidr_byte CIDRMask_loop_0 masked_zero ipval_Cons pow256)
    have p: "(2::nat) ^ (8 * Suc l - n) = 2 ^ (8 - n) * 2 ^ (8 * l)"
      by (simp only: e power_add)
    show ?thesis unfolding val p by (rule d)
  qed
qed

subsection \<open>Unrolling the enumeration loop\<close>

lemma enumerate_loop_unroll:
  "\<forall>x \<in> set (addresses_from ip k). Contains net x \<Longrightarrow> \<not> Contains net ((nextIP ^^ k) ip) \<Longrightarrow>
   enumerate_loop s6 net ip ips = Some (ips @ map (String s6) (addresses_from ip k))"
proof (induction k arbitrary: ip ips)
  case 0
  then show ?case by (subst enumerate_loop.simps) simp
next
  case (Suc k)
  have c: "Contains net ip" using Suc.prems(1) by simp
  have "enumerate_loop s6 net (nextIP ip) (ips @ [String s6 ip]) =
      Some ((ips @ [String s6 ip]) @ map (String s6) (addresses_from (nextIP ip) k))"
    using Suc.prems by (intro Suc.IH) (simp_all add: funpow_swap1)
  then show ?case using c by (subst enumerate_loop.simps) simp
qed

lemma ipval_funpow_nextIP:
  "ipval ((nextIP ^^ k) ip) = (ipval ip + k) mod 256 ^ length ip \<and> length ((nextIP ^^ k) ip) = length ip"
proof (induction k)
  case 0
  then show ?case using ipval_bound[of ip] by simp
next
  case (Suc k)
  then show ?case by (simp add: ipval_nextIP mod_Suc_eq)
qed

lemma addresses_from_values:
  "ipval ip + k \<le> 256 ^ length ip \<Longrightarrow>
   map ipval (addresses_from ip k) = [ipval ip ..< ipval ip + k]"
proof (induction k arbitrary: ip)
  case 0
  then show ?case by simp
next
  case (Suc k)
  show ?case
  proof (cases k)
    case 0
    then show ?thesis by simp
  next
    case (Suc k')
    then have "ipval ip + 1 < 256 ^ length ip" using Suc.prems by simp
    then have v: "ipval (nextIP ip) = ipval ip + 1" by (simp add: ipval_nextIP)
    then have "map ipval (addresses_from (nextIP ip) k) = [ipval ip + 1 ..< ipval ip + 1 + k]"
      using Suc.IH[of "nextIP ip"] Suc.prems by simp
    then show ?thesis by (simp add: upt_rec[of "ipval ip"])
  qed
qed

lemma length_addresses_from [simp]: "length (addresses_from ip k) = k"
  by (induction k arbitrary: ip) simp_all

lemma addresses_from_length: "x \<in> set (addresses_from ip k) \<Longrightarrow> length x = length ip"
  by (induction k arbitrary: ip) auto

subsection \<open>IPv4 ranges\<close>

lemma masked_idem: "masked (masked a m) m = masked a m"
proof (induction a arbitrary: m)
  case Nil
  then show ?case by simp
next
  case (Cons x xs)
  then show ?case by (cases m) (simp_all add: masked_def and.assoc)
qed

lemma Contains_len4:
  assumes "length (IP net) = 4" "length (Mask net) = 4" "length ip = 4"
  shows "Contains net ip \<longleftrightarrow> masked (IP net) (Mask net) = masked ip (Mask net)"
proof -
  have "Contains net ip \<longleftrightarrow> (\<forall>i \<in> {0..<4}. IP net ! i AND Mask net ! i = ip ! i AND Mask net ! i)"
    using assms
    by (simp add: Contains_def networkNumberAndMask_def networkNumberAndMask2_def To4_def
        list_all_iff)
  also have "\<dots> \<longleftrightarrow> masked (IP net) (Mask net) = masked ip (Mask net)"
    using assms by (auto simp add: list_eq_iff_nth_eq masked_def)
  finally show ?thesis .
qed

lemma IP_Mask_len4:
  "length ip = 4 \<Longrightarrow> length m = 4 \<Longrightarrow> IP_Mask ip m = masked ip m"
  by (simp add: IP_Mask_def masked_def)

lemma IP_Mask_As16_Addr4:
  "length m = 4 \<Longrightarrow> IP_Mask (As16 (Addr4 a b c d)) m = masked [a, b, c, d] m"
  by (simp add: IP_Mask_def masked_def v4InV6Prefix_def)

lemma CIDRMask_32: "n \<le> 32 \<Longrightarrow> CIDRMask n 32 = CIDRMask_loop 4 n"
  by (simp add: CIDRMask_def)

lemma ipval_ip4:
  assumes "v < 2 ^ 32"
  shows "ipval (ip4 v) = v"
proof -
  define q1 where "q1 = v div 256"
  define q2 where "q2 = q1 div 256"
  define q3 where "q3 = q2 div 256"
  have d8: "v div 2 ^ 8 = q1" by (simp add: q1_def)
  have d16: "v div 2 ^ 16 = q2"
    using div_mult2_eq[of v 256 256] by (simp add: q1_def q2_def)
  have d24: "v div 2 ^ 24 = q3"
    using div_mult2_eq[of v 65536 256] div_mult2_eq[of v 256 256] by (simp add: q1_def q2_def q3_def)
  have "q3 < 256" using assms unfolding d24[symmetric] by (simp add: less_mult_imp_div_less)
  then have m3: "q3 mod 256 = q3" by simp
  have "ipval (ip4 v) = ((q3 mod 256 * 256 + q2 mod 256) * 256 + q1 mod 256) * 256 + v mod 256"
    unfolding ip4_def d8 d16 d24 by (simp add: ipval_def unat_of_nat)
  also have "\<dots> = ((q2 div 256 * 256 + q2 mod 256) * 256 + q1 mod 256) * 256 + v mod 256"
    using m3 by (simp only: q3_def)
  also have "\<dots> = (q1 div 256 * 256 + q1 mod 256) * 256 + v mod 256"
    by (simp only: div_mult_mod_eq q2_def)
  also have "\<dots> = v div 256 * 256 + v mod 256"
    by (simp only: div_mult_mod_eq q1_def)
  finally show ?thesis by simp
qed

lemma length_ip4 [simp]: "length (ip4 v) = 4"
  by (simp add: ip4_def)

lemma addresses_as_ip4:
  assumes "length ip = 4" "ipval ip + k \<le> 2 ^ 32"
  shows "addresses_from ip k = map ip4 [ipval ip ..< ipval ip + k]"
proof (rule nth_equalityI)
  show "length (addresses_from ip k) = length (map ip4 [ipval ip ..< ipval ip + k])" by simp
next
  fix i assume "i < length (addresses_from ip k)"
  then have i: "i < k" by simp
  have vals: "map ipval (addresses_from ip k) = [ipval ip ..< ipval ip + k]"
    using addresses_from_values[of ip k] assms by simp
  have "ipval (addresses_from ip k ! i) = map ipval (addresses_from ip k) ! i"
    using i by simp
  also have "\<dots> = ipval ip + i" using i by (simp add: vals)
  finally have v: "ipval (addresses_from ip k ! i) = ipval ip + i" .
  have "addresses_from ip k ! i \<in> set (addresses_from ip k)" using i by simp
  then have l: "length (addresses_from ip k ! i) = 4"
    using addresses_from_length assms(1) by metis
  have "ipval ip + i < 2 ^ 32" using i assms(2) by simp
  then have "ipval (ip4 (ipval ip + i)) = ipval ip + i" by (rule ipval_ip4)
  then have "addresses_from ip k ! i = ip4 (ipval ip + i)"
    using v l by (intro ipval_inj) simp_all
  then show "addresses_from ip k ! i = map ip4 [ipval ip ..< ipval ip + k] ! i"
    using i by simp
qed

lemma aligned_block:
  fixes N h n :: nat
  assumes "2 ^ h dvd N" "N < 2 ^ (n + h)"
  shows "N + 2 ^ h \<le> 2 ^ (n + h)"
proof -
  obtain q where q: "N = 2 ^ h * q" using assms(1) by (auto elim: dvdE)
  have "2 ^ h * q < 2 ^ h * 2 ^ n" using assms(2) q by (simp add: power_add mult.commute)
  then have "q < 2 ^ n" by simp
  then have "q + 1 \<le> 2 ^ n" by simp
  then have "2 ^ h * (q + 1) \<le> 2 ^ h * 2 ^ n" by (intro mult_le_mono2)
  then show ?thesis using q by (simp add: power_add mult.commute)
qed

lemma same_block:
  fixes N h v :: nat
  assumes "2 ^ h dvd N" "N \<le> v" "v < N + 2 ^ h"
  shows "v div 2 ^ h = N div 2 ^ h"
proof -
  obtain q where q: "N = 2 ^ h * q" using assms(1) by (auto elim: dvdE)
  have "v = (v - N) + q * 2 ^ h" using assms(2) q by simp
  then have "v div 2 ^ h = ((v - N) + q * 2 ^ h) div 2 ^ h" by simp
  also have "\<dots> = (v - N) div 2 ^ h + q" by simp
  also have "\<dots> = q" using assms(2,3) by simp
  finally show ?thesis using q by simp
qed

lemma ipv4_range_loop:
  assumes n: "1 \<le> n" "n \<le> 32"
    and net: "net = \<lparr> IP = masked [a, b, c, d] (CIDRMask n 32), Mask = CIDRMask n 32 \<rparr>"
  shows "enumerate_loop s6 net (IP_Mask (IP net) (Mask net)) ips =
           Some (ips @ map (String s6) (map ip4 [ipval (IP net) ..< ipval (IP net) + 2 ^ (32 - n)]))"
    and "ipval (IP net) + 2 ^ (32 - n) \<le> 2 ^ 32"
proof -
  define M where "M = CIDRMask_loop 4 n"
  define N where "N = ipval (IP net)"
  define h where "h = 32 - n"
  have M: "Mask net = M" "length M = 4" using n net by (simp_all add: M_def CIDRMask_32)
  have I: "IP net = masked [a, b, c, d] M" "length (IP net) = 4"
    using n net by (simp_all add: M_def CIDRMask_32)
  have start: "IP_Mask (IP net) (Mask net) = IP net"
    using M I by (simp add: IP_Mask_len4 masked_idem)
  have dvd: "2 ^ h dvd N"
    using mask_dvd[of "[a, b, c, d]" 4 n] n unfolding N_def I(1) M_def h_def by simp
  have "N < 256 ^ 4" unfolding N_def using ipval_bound[of "IP net"] I(2) by simp
  then have N32: "N < 2 ^ (n + h)" using n by (simp add: h_def)
  have top: "N + 2 ^ h \<le> 2 ^ 32"
    using aligned_block[OF dvd N32] n by (simp add: h_def)
  have cont: "Contains net ip \<longleftrightarrow> ipval ip div 2 ^ h = N div 2 ^ h" if "length ip = 4" for ip
  proof -
    have "Contains net ip \<longleftrightarrow> masked (IP net) M = masked ip M"
      using Contains_len4[of net ip] M I(2) that by simp
    also have "\<dots> \<longleftrightarrow> ipval (IP net) div 2 ^ (8 * 4 - n) = ipval ip div 2 ^ (8 * 4 - n)"
      unfolding M_def using mask_div[of "IP net" 4 ip n] I(2) that n by simp
    finally show ?thesis by (auto simp: N_def h_def)
  qed
  have addrs: "addresses_from (IP net) (2 ^ h) = map ip4 [N ..< N + 2 ^ h]"
    unfolding N_def using addresses_as_ip4[of "IP net" "2 ^ h"] I(2) top by (simp add: N_def)
  have inside: "\<forall>x \<in> set (addresses_from (IP net) (2 ^ h)). Contains net x"
  proof
    fix x assume "x \<in> set (addresses_from (IP net) (2 ^ h))"
    then obtain v where v: "x = ip4 v" "N \<le> v" "v < N + 2 ^ h" unfolding addrs by auto
    then have "v < 2 ^ 32" using top by simp
    then have "ipval x = v" using v(1) by (simp add: ipval_ip4)
    then show "Contains net x"
      using cont[of x] v same_block[OF dvd v(2,3)] by simp
  qed
  let ?y = "(nextIP ^^ (2 ^ h)) (IP net)"
  have y: "ipval ?y = (N + 2 ^ h) mod 2 ^ 32" "length ?y = 4"
    using ipval_funpow_nextIP[of "2 ^ h" "IP net"] I(2) by (simp_all add: N_def)
  obtain q where q: "N = 2 ^ h * q" using dvd by (auto elim: dvdE)
  have Nq: "N div 2 ^ h = q" using q by simp
  have "ipval ?y div 2 ^ h \<noteq> N div 2 ^ h"
  proof (cases "N + 2 ^ h < 2 ^ 32")
    case True
    then have "ipval ?y = (q + 1) * 2 ^ h" using y(1) q by simp
    then have "ipval ?y div 2 ^ h = q + 1" by simp
    then show ?thesis using Nq by simp
  next
    case False
    then have e: "N + 2 ^ h = 2 ^ 32" using top by simp
    then have "ipval ?y = 0" using y(1) by simp
    moreover have "q \<noteq> 0"
    proof
      assume "q = 0"
      then have "(2::nat) ^ h = 2 ^ 32" using e q by simp
      moreover have "h < 32" using n by (simp add: h_def)
      then have "(2::nat) ^ h < 2 ^ 32" by (intro power_strict_increasing) simp_all
      ultimately show False by simp
    qed
    ultimately show ?thesis using Nq by simp
  qed
  then have outside: "\<not> Contains net ?y" using cont[of ?y] y(2) by simp
  show "enumerate_loop s6 net (IP_Mask (IP net) (Mask net)) ips =
           Some (ips @ map (String s6) (map ip4 [ipval (IP net) ..< ipval (IP net) + 2 ^ (32 - n)]))"
    unfolding start using enumerate_loop_unroll[OF inside outside, of s6 ips]
    unfolding addrs by (simp add: N_def h_def)
  show "ipval (IP net) + 2 ^ (32 - n) \<le> 2 ^ 32" using top by (simp add: N_def h_def)
qed

lemma inner_map_upt:
  assumes "2 < k"
  shows "inner (map f [N ..< N + k]) = map f [N + 1 ..< N + k - 1]"
proof -
  have d: "drop 1 [N ..< N + k] = [N + 1 ..< N + k]" by (simp add: drop_upt)
  have t: "take (k - 2) [N + 1 ..< N + k] = [N + 1 ..< N + 1 + (k - 2)]"
    using assms by (intro take_upt) simp
  have e: "N + 1 + (k - 2) = N + k - 1" using assms by simp
  have "take (k - 2) (drop 1 [N ..< N + k]) = [N + 1 ..< N + k - 1]"
    by (simp only: d t e)
  then have "take (k - 2) (drop 1 (map f [N ..< N + k])) = map f [N + 1 ..< N + k - 1]"
    by (simp only: take_map drop_map)
  then show ?thesis by (simp add: inner_def)
qed

lemma To4_len4: "length ip = 4 \<Longrightarrow> To4 ip = Some ip"
  by (simp add: To4_def)

lemma IpsFromCIDR_ipv4:
  assumes parse: "ParseCIDR p6 cidr = Inr net"
    and net: "net = \<lparr> IP = masked [a, b, c, d] (CIDRMask n 32), Mask = CIDRMask n 32 \<rparr>"
    and n: "1 \<le> n" "n \<le> 32"
  shows "IpsFromCIDR p6 s6 cidr =
     Some (Inr (map (String s6 \<circ> ip4)
       (if n \<le> 30 then [ipval (IP net) + 1 ..< ipval (IP net) + 2 ^ (32 - n) - 1]
        else [ipval (IP net) ..< ipval (IP net) + 2 ^ (32 - n)])))"
proof -
  let ?N = "ipval (IP net)"
  let ?k = "(2::nat) ^ (32 - n)"
  have loop: "enumerate_loop s6 net (IP_Mask (IP net) (Mask net)) [] =
      Some (map (String s6 \<circ> ip4) [?N ..< ?N + ?k])"
    using ipv4_range_loop(1)[OF n net, of s6 "[]"] by simp
  have len4: "length (IP net) = 4" using n net by (simp add: CIDRMask_32)
  show ?thesis
  proof (cases "n \<le> 30")
    case True
    then have "32 - n \<ge> 2" by simp
    then have "(2::nat) ^ 2 \<le> 2 ^ (32 - n)" by (intro power_increasing) simp_all
    then have k: "2 < ?k" by simp
    then show ?thesis
      using True loop parse len4 inner_map_upt[OF k, of "String s6 \<circ> ip4" ?N]
      by (simp add: IpsFromCIDR_def To4_len4)
  next
    case False
    then have "n = 31 \<or> n = 32" using n by linarith
    then have "?k \<le> 2" by auto
    then show ?thesis
      using False loop parse by (simp add: IpsFromCIDR_def)
  qed
qed

lemma ParseCIDR_shape:
  assumes "ParseCIDR p6 cidr = Inr net"
  shows "(\<exists>a b c d n. n \<le> 32 \<and>
           net = \<lparr> IP = masked [a, b, c, d] (CIDRMask n 32), Mask = CIDRMask n 32 \<rparr>) \<or>
         (\<exists>w n. n \<le> 128 \<and>
           net = \<lparr> IP = IP_Mask (As16 (Addr6 w)) (CIDRMask n 128), Mask = CIDRMask n 128 \<rparr>)"
proof -
  have "\<exists>addr n. n \<le> BitLen addr \<and>
      net = \<lparr> IP = IP_Mask (As16 addr) (CIDRMask n (BitLen addr)), Mask = CIDRMask n (BitLen addr) \<rparr>"
    using assms
    by (auto simp: ParseCIDR_def Let_def not_less split: if_splits option.splits prod.splits)
  then obtain addr n where a: "n \<le> BitLen addr"
      "net = \<lparr> IP = IP_Mask (As16 addr) (CIDRMask n (BitLen addr)), Mask = CIDRMask n (BitLen addr) \<rparr>"
    by blast
  show ?thesis
  proof (cases addr)
    case (Addr4 a b c d)
    then have n: "n \<le> 32" using a(1) by simp
    then have "length (CIDRMask n 32) = 4" by (simp add: CIDRMask_32)
    then have "IP_Mask (As16 (Addr4 a b c d)) (CIDRMask n 32) = masked [a, b, c, d] (CIDRMask n 32)"
      by (rule IP_Mask_As16_Addr4)
    then have "net = \<lparr> IP = masked [a, b, c, d] (CIDRMask n 32), Mask = CIDRMask n 32 \<rparr>"
      using a(2) Addr4 by simp
    then show ?thesis using n by blast
  next
    case (Addr6 w)
    then have "n \<le> 128"
        "net = \<lparr> IP = IP_Mask (As16 (Addr6 w)) (CIDRMask n 128), Mask = CIDRMask n 128 \<rparr>"
      using a by simp_all
    then show ?thesis by blast
  qed
qed

subsection \<open>Several ranges\<close>

lemma IpsFromCidrs_loop_collect:
  "IpsFromCidrs_loop p6 s6 cidrsList allIps = collect (IpsFromCIDR p6 s6) cidrsList allIps"
  by (induction cidrsList arbitrary: allIps)
     (auto simp: IpsFromCIDR_def split: sum.splits option.splits)

lemma IpsFromCidrs_collect:
  "IpsFromCidrs p6 s6 cidrs = collect (IpsFromCIDR p6 s6) (Split cidrs) []"
  by (simp add: IpsFromCidrs_def IpsFromCidrs_loop_collect)

lemma collect_all_results:
  "\<forall>c \<in> set cs. \<exists>ips. f c = Some (Inr ips) \<Longrightarrow>
   collect f cs acc = Some (Inr (acc @ concat (map (\<lambda>c. addresses_of (f c)) cs)))"
  by (induction cs arbitrary: acc) (auto simp: addresses_of_def)

lemma collect_first_error:
  "\<forall>c \<in> set pre. \<exists>ips. f c = Some (Inr ips) \<Longrightarrow> f bad = Some (Inl err) \<Longrightarrow>
   collect f (pre @ bad # post) acc = Some (Inl err)"
  by (induction pre arbitrary: acc) auto

lemma IpsFromCIDR_malformed:
  "ParseCIDR p6 cidr = Inl err \<Longrightarrow> IpsFromCIDR p6 s6 cidr = Some (Inl err)"
  by (simp add: IpsFromCIDR_def)

lemma ParseCIDR_error_names_range:
  "ParseCIDR p6 cidr = Inl err \<Longrightarrow> err = ParseError ''CIDR address'' cidr"
  by (auto simp: ParseCIDR_def Let_def split: if_splits option.splits prod.splits)

section \<open>The range 0.0.0.0/0\<close>

text \<open>
  \<open>net.ParseCIDR\<close> accepts \<open>0.0.0.0/0\<close>; its mask has no bit set, so
  \<open>Contains\<close> holds for every 4-byte address, and \<open>nextIP\<close> takes
  \<open>255.255.255.255\<close> back to \<open>0.0.0.0\<close>. The enumeration loop therefore has no
  result on this range, in \<open>IpsFromCIDR\<close> and in \<open>IpsFromCidrs\<close> alike.
\<close>

lemma CIDRMask_loop_numeral:
  "CIDRMask_loop (numeral k) n =
     (if n \<ge> 8 then 0xff # CIDRMask_loop (pred_numeral k) (n - 8)
      else NOT (drop_bit n (0xff :: byte)) # CIDRMask_loop (pred_numeral k) 0)"
  by (simp add: numeral_eq_Suc)

lemma CIDRMask_0_32: "CIDRMask 0 32 = [0, 0, 0, 0]"
  by (simp add: CIDRMask_def CIDRMask_loop_numeral)

lemma parse_net0: "ParseCIDR p6 ''0.0.0.0/0'' = Inr net0"
  by (simp add: ParseCIDR_def parseIPv4_def isDigit_def digitVal_def dtoi_def big_def
      CIDRMask_0_32 IP_Mask_def v4InV6Prefix_def allFF_def net0_def Let_def)

lemma parse_bogus: "ParseCIDR p6 ''bogus'' = Inl (ParseError ''CIDR address'' ''bogus'')"
  by (simp add: ParseCIDR_def)

lemma net0_Contains: "length ip = 4 \<Longrightarrow> Contains net0 ip"
  by (simp add: Contains_def networkNumberAndMask_def networkNumberAndMask2_def To4_def net0_def
      list_all_iff nth_Cons split: nat.splits)

lemma net0_no_result:
  assumes "enumerate_loop s6 n ip ips = Some r"
  shows "\<not> (n = net0 \<and> length ip = 4)"
proof (rule enumerate_loop.raw_induct[where P = "\<lambda>s6 n ip ips r. \<not> (n = net0 \<and> length ip = 4)", OF _ assms])
  fix f :: "(IP \<Rightarrow> string) \<Rightarrow> IPNet \<Rightarrow> IP \<Rightarrow> string list \<Rightarrow> string list option" 
  fix s6 n ip ips r
  assume IH: "\<And>s6 n ip ips r. f s6 n ip ips = Some r \<Longrightarrow> \<not> (n = net0 \<and> length ip = 4)"
    and body: "(if Contains n ip then f s6 n (nextIP ip) (ips @ [String s6 ip]) else Some ips) = Some r"
  show "\<not> (n = net0 \<and> length ip = 4)"
  proof
    assume a: "n = net0 \<and> length ip = 4"
    then have "Contains n ip" by (simp add: net0_Contains)
    then have "f s6 n (nextIP ip) (ips @ [String s6 ip]) = Some r" using body by simp
    then have "\<not> (n = net0 \<and> length (nextIP ip) = 4)" by (rule IH)
    then show False using a by simp
  qed
qed

lemma net0_diverges: "length ip = 4 \<Longrightarrow> enumerate_loop s6 net0 ip ips = None"
  using net0_no_result[of s6 net0 ip ips] by (cases "enumerate_loop s6 net0 ip ips") auto

lemma net0_start: "IP_Mask (IP net0) (Mask net0) = [0, 0, 0, 0]"
  by (simp add: net0_def IP_Mask_def)

lemma Split_single: "Split ''0.0.0.0/0'' = [''0.0.0.0/0'']"
  by simp

lemma Split_pair: "Split ''0.0.0.0/0,bogus'' = [''0.0.0.0/0'', ''bogus'']"
  by simp

text \<open>
  C3 does not hold on the code. The claim is that the enumeration loop terminates
  for every range the parser accepts, with a non-empty, strictly increasing
  result. \<open>0.0.0.0/0\<close> is accepted, and the loop started on it never stops: the
  call has no result.
\<close>

theorem enumeration_of_all_ipv4_never_ends:
  "ParseCIDR p6 ''0.0.0.0/0'' = Inr net0 \<and>
   enumerate_loop s6 net0 (IP_Mask (IP net0) (Mask net0)) [] = None \<and>
   IpsFromCIDR p6 s6 ''0.0.0.0/0'' = None"
  by (simp add: IpsFromCIDR_def parse_net0 net0_diverges net0_start)

theorem enumeration_of_all_ipv4_never_ends_witness:
  "ParseCIDR (\<lambda>s. None) ''0.0.0.0/0'' = Inr net0 \<and>
   IpsFromCIDR (\<lambda>s. None) (\<lambda>ip. []) ''0.0.0.0/0'' = None"
  using enumeration_of_all_ipv4_never_ends[of "\<lambda>s. None" "\<lambda>ip. []"] by simp

text \<open>
  C2 does not hold on the code at the same input. \<open>0.0.0.0/0\<close> is an IPv4 range
  with more than two addresses, and the claim is that the enumerator returns every
  address strictly between its first and its last; it returns no list at all,
  through either entry point.
\<close>

theorem no_addresses_for_all_ipv4:
  "(\<nexists>ips. IpsFromCIDR p6 s6 ''0.0.0.0/0'' = Some (Inr ips)) \<and>
   IpsFromCidrs p6 s6 ''0.0.0.0/0'' = None"
  by (simp add: IpsFromCIDR_def IpsFromCidrs_def parse_net0 net0_diverges net0_start)

theorem no_addresses_for_all_ipv4_witness:
  "IpsFromCidrs (\<lambda>s. None) (\<lambda>ip. []) ''0.0.0.0/0'' = None"
  using no_addresses_for_all_ipv4[of "\<lambda>s. None" "\<lambda>ip. []"] by simp

text \<open>
  C5 does not hold on the code for the same reason. The second range of
  \<open>0.0.0.0/0,bogus\<close> is malformed, and the claim is that the call then fails with
  the parse error of that range; the call never gets to it, because the loop on
  the first range does not stop.
\<close>

theorem malformed_range_after_all_ipv4:
  "ParseCIDR p6 ''bogus'' = Inl (ParseError ''CIDR address'' ''bogus'') \<and>
   IpsFromCidrs p6 s6 ''0.0.0.0/0,bogus'' = None"
  by (simp add: IpsFromCidrs_def parse_net0 parse_bogus net0_diverges net0_start)

theorem malformed_range_after_all_ipv4_witness:
  "IpsFromCidrs (\<lambda>s. None) (\<lambda>ip. []) ''0.0.0.0/0,bogus'' = None"
  using malformed_range_after_all_ipv4[of "\<lambda>s. None" "\<lambda>ip. []"] by simp

section \<open>The two end-to-end examples of the specification\<close>

text \<open>
  The range \<open>10.0.0.0/30\<close> enumerates to \<open>10.0.0.1\<close> and \<open>10.0.0.2\<close>, and
  the reachable list \<open>10.0.0.5, 10.0.0.5, not-an-ip\<close> reconciles, against no
  member, to \<open>10.0.0.5\<close>.
\<close>

lemma CIDRMask_30: "CIDRMask 30 32 = [255, 255, 255, 252]"
  by (simp add: CIDRMask_def CIDRMask_loop_numeral)

lemma parse_slash30:
  "ParseCIDR p6 ''10.0.0.0/30'' = Inr \<lparr> IP = [10, 0, 0, 0], Mask = [255, 255, 255, 252] \<rparr>"
  by (simp add: ParseCIDR_def parseIPv4_def isDigit_def digitVal_def dtoi_def big_def
      CIDRMask_30 IP_Mask_def v4InV6Prefix_def allFF_def Let_def)

lemma digit_chars:
  "char_of (48::nat) = CHR ''0''" "char_of (49::nat) = CHR ''1''" "char_of (50::nat) = CHR ''2''"
  by code_simp+

lemma dotted_1: "String s6 (ip4 167772161) = ''10.0.0.1''"
  by (simp add: ip4_def String_def To4_def ubtoa_def digit_chars)

lemma dotted_2: "String s6 (ip4 167772162) = ''10.0.0.2''"
  by (simp add: ip4_def String_def To4_def ubtoa_def digit_chars)

lemma example_slash30:
  "IpsFromCIDR p6 s6 ''10.0.0.0/30'' = Some (Inr [''10.0.0.1'', ''10.0.0.2''])"
proof -
  let ?net = "\<lparr> IP = [10, 0, 0, 0], Mask = [255, 255, 255, 252] \<rparr> :: IPNet"
  have net: "?net = \<lparr> IP = masked [10, 0, 0, 0] (CIDRMask 30 32), Mask = CIDRMask 30 32 \<rparr>"
    by (simp add: CIDRMask_30)
  have v: "ipval (IP ?net) = 167772160" by (simp add: ipval_def)
  have u: "[167772161 ..< 167772163] = [167772161, 167772162 :: nat]"
    by (simp add: upt_rec)
  have "IpsFromCIDR p6 s6 ''10.0.0.0/30'' =
      Some (Inr (map (String s6 \<circ> ip4) [167772160 + 1 ..< 167772160 + 2 ^ (32 - 30) - 1]))"
    using IpsFromCIDR_ipv4[OF parse_slash30 net] unfolding v by simp
  then show ?thesis by (simp add: u dotted_1 dotted_2)
qed

lemma example_reconcile:
  "reconcile p6 [] [''10.0.0.5'', ''10.0.0.5'', ''not-an-ip''] = [''10.0.0.5'']"
  by (simp add: reconcile_def reconcile_step_def ParseIP_def parseIPv4_def isDigit_def
      digitVal_def To4_def isZeros_def v4InV6Prefix_def)

end
